theory Spec2Isabelle
  imports Main
begin

section \<open>Bytes, errors and events\<close>

text \<open>
  Go strings and byte slices are sequences of octets; both are modelled as \<open>char list\<close>
  (an Isabelle \<open>char\<close> is one octet). A nil slice and an empty slice are both \<open>[]\<close>.
\<close>

type_synonym bytes = "char list"

abbreviation LF :: char where "LF \<equiv> CHR 0x0A"
abbreviation CR :: char where "CR \<equiv> CHR 0x0D"

text \<open>
  Errors of the underlying reader (\<open>io.EOF\<close> or any other read failure). They are a type of
  their own: a reader never hands out the sentinels of this package.
\<close>

datatype stream_error = EOF | ReadErr string

text \<open>
  The error values of the package: the two sentinels of eventsource.go, reader errors,
  \<open>context.Canceled\<close>, other errors of the HTTP client, \<open>fmt.Errorf\<close> with \<open>%w\<close>
  (\<open>Wrapped prefix cause\<close>) and \<open>fmt.Errorf\<close> without it.
\<close>

datatype error =
    ErrClosed
  | ErrInvalidEncoding
  | Stream stream_error
  | ContextCanceled
  | TransportErr string
  | Wrapped string error
  | Errorf string

text \<open>\<open>errors.Is\<close>: equality with the target somewhere along the chain of wrapped causes.\<close>

fun errors_Is :: "error \<Rightarrow> error \<Rightarrow> bool" where
  "errors_Is (Wrapped m e) t = (Wrapped m e = t \<or> errors_Is e t)"
| "errors_Is e t = (e = t)"

text \<open>The struct \<open>Event\<close> of eventsource.go.\<close>

record Event =
  Type :: string
  ID :: string
  Retry :: string
  Data :: bytes
  ResetID :: bool

definition zero_Event :: Event where
  "zero_Event = \<lparr>Type = [], ID = [], Retry = [], Data = [], ResetID = False\<rparr>"

section \<open>UTF-8 validity\<close>

text \<open>
  \<open>utf8.Valid\<close> and \<open>utf8.ValidString\<close> of the Go library accept exactly the well-formed
  UTF-8 byte sequences: no overlong forms, no surrogates, nothing above U+10FFFF. The
  model is the usual automaton over the bytes; a state says what the bytes read so far
  still require.
\<close>

datatype utf8_state =
    U_start    \<comment> \<open>between code points\<close>
  | U_cont1    \<comment> \<open>one continuation byte 80..BF missing\<close>
  | U_cont2    \<comment> \<open>two continuation bytes missing\<close>
  | U_cont3    \<comment> \<open>three continuation bytes missing\<close>
  | U_E0       \<comment> \<open>after E0: A0..BF, then one continuation byte\<close>
  | U_ED       \<comment> \<open>after ED: 80..9F, then one continuation byte\<close>
  | U_F0       \<comment> \<open>after F0: 90..BF, then two continuation bytes\<close>
  | U_F4       \<comment> \<open>after F4: 80..8F, then two continuation bytes\<close>

definition in_range :: "nat \<Rightarrow> nat \<Rightarrow> nat \<Rightarrow> bool" where
  "in_range lo hi b = (lo \<le> b \<and> b \<le> hi)"

fun utf8_step :: "utf8_state \<Rightarrow> nat \<Rightarrow> utf8_state option" where
  "utf8_step U_start b =
     (if b < 0x80 then Some U_start
      else if in_range 0xC2 0xDF b then Some U_cont1
      else if b = 0xE0 then Some U_E0
      else if in_range 0xE1 0xEC b then Some U_cont2
      else if b = 0xED then Some U_ED
      else if in_range 0xEE 0xEF b then Some U_cont2
      else if b = 0xF0 then Some U_F0
      else if in_range 0xF1 0xF3 b then Some U_cont3
      else if b = 0xF4 then Some U_F4
      else None)"
| "utf8_step U_cont1 b = (if in_range 0x80 0xBF b then Some U_start else None)"
| "utf8_step U_cont2 b = (if in_range 0x80 0xBF b then Some U_cont1 else None)"
| "utf8_step U_cont3 b = (if in_range 0x80 0xBF b then Some U_cont2 else None)"
| "utf8_step U_E0 b = (if in_range 0xA0 0xBF b then Some U_cont1 else None)"
| "utf8_step U_ED b = (if in_range 0x80 0x9F b then Some U_cont1 else None)"
| "utf8_step U_F0 b = (if in_range 0x90 0xBF b then Some U_cont2 else None)"
| "utf8_step U_F4 b = (if in_range 0x80 0x8F b then Some U_cont2 else None)"

fun utf8_from :: "utf8_state \<Rightarrow> bytes \<Rightarrow> bool" where
  "utf8_from st [] = (st = U_start)"
| "utf8_from st (c # cs) =
     (case utf8_step st (of_char c) of
        None \<Rightarrow> False
      | Some st' \<Rightarrow> utf8_from st' cs)"

definition utf8_Valid :: "bytes \<Rightarrow> bool" where
  "utf8_Valid s = utf8_from U_start s"

section \<open>Encoder\<close>

text \<open>
  The sink of an \<open>Encoder\<close>: the bytes written so far, and the error of a broken sink
  (every \<open>Write\<close> on it fails with that error and writes nothing). \<open>Flush\<close> of the sink
  has no effect on the bytes.
\<close>

record FlushWriter =
  written :: bytes
  broken :: "error option"

definition Write :: "FlushWriter \<Rightarrow> bytes \<Rightarrow> error option \<times> FlushWriter" where
  "Write w bs =
     (case broken w of
        Some e \<Rightarrow> (Some e, w)
      | None \<Rightarrow> (None, w\<lparr>written := written w @ bs\<rparr>))"

record Encoder =
  enc_w :: FlushWriter

definition NewEncoder :: "FlushWriter \<Rightarrow> Encoder" where
  "NewEncoder w = \<lparr>enc_w = w\<rparr>"

text \<open>\<open>Encoder.Flush\<close>: write the empty line that completes the event, flush the sink.\<close>

definition Flush :: "Encoder \<Rightarrow> error option \<times> Encoder" where
  "Flush e = (case Write (enc_w e) [LF] of (err, w') \<Rightarrow> (err, e\<lparr>enc_w := w'\<rparr>))"

text \<open>\<open>Encoder.writeField\<close>: \<open>"%s\n"\<close> for an empty value, \<open>"%s: %s\n"\<close> otherwise.\<close>

definition writeField :: "Encoder \<Rightarrow> string \<Rightarrow> bytes \<Rightarrow> error option \<times> Encoder" where
  "writeField e field val =
     (if length val = 0
      then (case Write (enc_w e) (field @ [LF]) of (err, w') \<Rightarrow> (err, e\<lparr>enc_w := w'\<rparr>))
      else (case Write (enc_w e) (field @ '': '' @ val @ [LF]) of
              (err, w') \<Rightarrow> (err, e\<lparr>enc_w := w'\<rparr>)))"

text \<open>
  \<open>bytes.Split(value, newline)\<close>: the pieces between the newlines; one more piece than
  there are newlines, so a single empty piece for the empty value.
\<close>

fun bytes_Split :: "bytes \<Rightarrow> bytes list" where
  "bytes_Split [] = [[]]"
| "bytes_Split (c # cs) =
     (if c = LF then [] # bytes_Split cs
      else (case bytes_Split cs of
              l # ls \<Rightarrow> (c # l) # ls
            | [] \<Rightarrow> [[c]]))"

text \<open>The loop of \<open>Encoder.WriteField\<close> over the pieces.\<close>

fun WriteField_lines :: "Encoder \<Rightarrow> string \<Rightarrow> bytes list \<Rightarrow> error option \<times> Encoder" where
  "WriteField_lines e field [] = (None, e)"
| "WriteField_lines e field (line # lines) =
     (let line' = (if length line > 0 \<and> last line = CR then butlast line else line)
      in case writeField e field line' of
           (Some err, e') \<Rightarrow> (Some (Wrapped ''write field: '' err), e')
         | (None, e') \<Rightarrow> WriteField_lines e' field lines)"

definition WriteField :: "Encoder \<Rightarrow> string \<Rightarrow> bytes \<Rightarrow> error option \<times> Encoder" where
  "WriteField e field val =
     (if \<not> utf8_Valid field \<or> \<not> utf8_Valid val then (Some ErrInvalidEncoding, e)
      else WriteField_lines e field (bytes_Split val))"

text \<open>\<open>Encoder.Encode\<close>: id, retry, event, data, then the empty line.\<close>

definition Encode :: "Encoder \<Rightarrow> Event \<Rightarrow> error option \<times> Encoder" where
  "Encode e event =
     (case (if ResetID event \<or> length (ID event) > 0
            then WriteField e ''id'' (ID event) else (None, e)) of
        (Some err, e1) \<Rightarrow> (Some err, e1)
      | (None, e1) \<Rightarrow>
     (case (if length (Retry event) > 0
            then WriteField e1 ''retry'' (Retry event) else (None, e1)) of
        (Some err, e2) \<Rightarrow> (Some err, e2)
      | (None, e2) \<Rightarrow>
     (case (if length (Type event) > 0
            then WriteField e2 ''event'' (Type event) else (None, e2)) of
        (Some err, e3) \<Rightarrow> (Some err, e3)
      | (None, e3) \<Rightarrow>
     (case WriteField e3 ''data'' (Data event) of
        (Some err, e4) \<Rightarrow> (Some err, e4)
      | (None, e4) \<Rightarrow> Flush e4))))"

section \<open>Decoder\<close>

text \<open>
  The input of a \<open>Decoder\<close>: the bytes not yet read, and the error the reader returns
  once they are used up (and on every read after that).
\<close>

record Body =
  content :: bytes
  fin :: stream_error

record Decoder =
  dec_r :: Body
  checkedBOM :: bool

definition NewDecoder :: "Body \<Rightarrow> Decoder" where
  "NewDecoder b = \<lparr>dec_r = b, checkedBOM = False\<rparr>"

definition remaining :: "Decoder \<Rightarrow> bytes" where
  "remaining d = content (dec_r d)"

definition advance :: "nat \<Rightarrow> Decoder \<Rightarrow> Decoder" where
  "advance n d = d\<lparr>dec_r := (dec_r d)\<lparr>content := drop n (content (dec_r d))\<rparr>\<rparr>"

text \<open>The encoding EF BB BF of U+FEFF.\<close>

definition BOM :: bytes where
  "BOM = [CHR 0xEF, CHR 0xBB, CHR 0xBF]"

text \<open>
  \<open>Decoder.checkBOM\<close>: \<open>ReadRune\<close> fails only when no byte is left, and then nothing
  changes; a first rune other than U+FEFF is put back.
\<close>

definition checkBOM :: "Decoder \<Rightarrow> Decoder" where
  "checkBOM d =
     (if remaining d = [] then d
      else (if take 3 (remaining d) = BOM then advance 3 d else d)\<lparr>checkedBOM := True\<rparr>)"

text \<open>
  \<open>bufio.Reader.ReadLine\<close> on a reader with the default buffer of 4096 bytes. A line
  whose newline lies within the buffer is returned without its \<open>\n\<close> or \<open>\r\n\<close>; a
  longer line comes in pieces of a full buffer, flagged \<open>isPrefix\<close>, where a \<open>\r\<close> at the
  end of a piece is held back for the next call; the bytes after the last newline are
  a line of their own, returned as they are; with no byte left the reader's error is
  returned. (The reader delivers its error only after its last byte.)
\<close>

definition bufSize :: nat where
  "bufSize = 4096"

definition ReadLine :: "Decoder \<Rightarrow> (stream_error + bytes \<times> bool) \<times> Decoder" where
  "ReadLine d =
     (let s = remaining d; l = takeWhile (\<lambda>c. c \<noteq> LF) s
      in if length l < length s \<and> length l < bufSize
         then (Inr (if l \<noteq> [] \<and> last l = CR then butlast l else l, False),
               advance (length l + 1) d)
         else if bufSize \<le> length s
         then (if last (take bufSize s) = CR
               then (Inr (take (bufSize - 1) s, True), advance (bufSize - 1) d)
               else (Inr (take bufSize s, True), advance bufSize d))
         else if s = [] then (Inl (fin (dec_r d)), d)
         else (Inr (s, False), advance (length s) d))"

lemma ReadLine_prefix_shorter:
  "ReadLine d = (Inr (line, True), d') \<Longrightarrow> length (remaining d') < length (remaining d)"
  by (auto simp: ReadLine_def Let_def remaining_def advance_def bufSize_def
           split: if_splits)

text \<open>The loop of \<open>Decoder.ReadField\<close> that collects the pieces of one line in \<open>buf\<close>.\<close>

function ReadField_line :: "Decoder \<Rightarrow> bytes \<Rightarrow> (stream_error + bytes) \<times> Decoder" where
  "ReadField_line d buf =
     (case ReadLine d of
        (Inl err, d') \<Rightarrow> (Inl err, d')
      | (Inr (line, isPrefix), d') \<Rightarrow>
          if \<not> isPrefix then (Inr (buf @ line), d')
          else ReadField_line d' (buf @ line))"
  by pat_completeness auto
termination
  by (relation "measure (\<lambda>(d, buf). length (remaining d))")
     (auto dest: ReadLine_prefix_shorter [OF sym])

declare ReadField_line.simps [simp del]

text \<open>\<open>bytes.Cut(buf, colon)\<close>: the bytes before and after the first colon.\<close>

definition bytes_Cut :: "bytes \<Rightarrow> char \<Rightarrow> bytes \<times> bytes \<times> bool" where
  "bytes_Cut s sep =
     (let pre = takeWhile (\<lambda>c. c \<noteq> sep) s
      in if length pre < length s
         then (pre, drop (length pre + 1) s, True)
         else (s, [], False))"

text \<open>
  \<open>Decoder.ReadField\<close>: the result \<open>(field, value, err)\<close> and the decoder after the call.
\<close>

definition ReadField :: "Decoder \<Rightarrow> (string \<times> bytes \<times> error option) \<times> Decoder" where
  "ReadField d =
     (let d0 = (if \<not> checkedBOM d then checkBOM d else d)
      in case ReadField_line d0 [] of
           (Inl err, d') \<Rightarrow> (([], [], Some (Stream err)), d')
         | (Inr buf, d') \<Rightarrow>
             if length buf = 0 then (([], [], None), d')
             else (case bytes_Cut buf (CHR '':'') of
                     (f, v, _) \<Rightarrow>
                       let v' = (if length v > 0 \<and> hd v = CHR '' '' then tl v else v)
                       in if \<not> utf8_Valid f \<or> \<not> utf8_Valid v'
                          then (([], [], Some ErrInvalidEncoding), d')
                          else ((f, v', None), d')))"

lemma ReadField_line_shorter:
  "ReadField_line d buf = (Inr b, d') \<Longrightarrow> length (remaining d') < length (remaining d)"
proof (induction d buf rule: ReadField_line.induct)
  case (1 d buf)
  obtain res d1 where rl: "ReadLine d = (res, d1)"
    by (cases "ReadLine d")
  show ?case
  proof (cases res)
    case (Inl err)
    with rl "1.prems" show ?thesis by (simp add: ReadField_line.simps [of d])
  next
    case (Inr p)
    obtain line isPrefix where p: "p = (line, isPrefix)"
      by (cases p)
    show ?thesis
    proof (cases isPrefix)
      case True
      from rl Inr p True have "length (remaining d1) < length (remaining d)"
        by (auto dest: ReadLine_prefix_shorter)
      moreover from rl Inr p True "1.prems" "1.IH"
      have "length (remaining d') < length (remaining d1)"
        by (simp add: ReadField_line.simps [of d])
      ultimately show ?thesis by simp
    next
      case False
      with rl Inr p "1.prems" have d1: "d' = d1"
        by (simp add: ReadField_line.simps [of d])
      from rl Inr p False have "remaining d \<noteq> []"
        by (auto simp: ReadLine_def Let_def split: if_splits)
      with rl Inr p False show ?thesis
        unfolding d1
        by (auto simp: ReadLine_def Let_def remaining_def advance_def bufSize_def
                 split: if_splits)
    qed
  qed
qed

lemma checkBOM_remaining_le: "length (remaining (checkBOM d)) \<le> length (remaining d)"
  by (simp add: checkBOM_def remaining_def advance_def)

lemma ReadField_shorter:
  assumes "ReadField d = ((f, v, None), d')"
  shows "length (remaining d') < length (remaining d)"
proof -
  define d0 where "d0 = (if \<not> checkedBOM d then checkBOM d else d)"
  have le: "length (remaining d0) \<le> length (remaining d)"
    by (simp add: d0_def checkBOM_remaining_le)
  obtain res d1 where rl: "ReadField_line d0 [] = (res, d1)"
    by (cases "ReadField_line d0 []")
  from assms rl obtain b where "res = Inr b" and "d' = d1"
    unfolding ReadField_def Let_def d0_def [symmetric]
    by (cases res) (auto split: if_splits prod.splits)
  with rl have "length (remaining d') < length (remaining d0)"
    by (auto dest: ReadField_line_shorter)
  with le show ?thesis by simp
qed

text \<open>
  \<open>Decoder.Decode\<close>: the event passed by pointer is an argument and a result. The
  \<open>switch\<close> on the field name gives the event and \<open>wroteData\<close> after one field.
\<close>

definition Decode_switch :: "string \<Rightarrow> bytes \<Rightarrow> Event \<times> bool \<Rightarrow> Event \<times> bool" where
  "Decode_switch field val ew =
     (case ew of (e, wroteData) \<Rightarrow>
        if field = ''id''
        then (e\<lparr>ID := val, ResetID := (if length val = 0 then True else ResetID e)\<rparr>, wroteData)
        else if field = ''retry'' then (e\<lparr>Retry := val\<rparr>, wroteData)
        else if field = ''event'' then (e\<lparr>Type := val\<rparr>, wroteData)
        else if field = ''data''
        then (if wroteData then (e\<lparr>Data := Data e @ [LF] @ val\<rparr>, True)
              else (e\<lparr>Data := Data e @ val\<rparr>, True))
        else (e, wroteData))"

text \<open>The loop of \<open>Decode\<close> carries the decoder, the event and \<open>wroteData\<close>.\<close>

function Decode_loop :: "Decoder \<Rightarrow> Event \<times> bool \<Rightarrow> error option \<times> Decoder \<times> Event" where
  "Decode_loop d ew =
     (case ReadField d of
        ((field, val, Some err), d') \<Rightarrow> (Some (Wrapped ''read field: '' err), d', fst ew)
      | ((field, val, None), d') \<Rightarrow>
          if length field = 0 \<and> length val = 0 then (None, d', fst ew)
          else Decode_loop d' (Decode_switch field val ew))"
  by pat_completeness auto
termination
  by (relation "measure (\<lambda>(d, ew). length (remaining d))")
     (auto dest: ReadField_shorter [OF sym])

declare Decode_loop.simps [simp del]

lemma Decode_loop_error:
  "ReadField d = ((f, v, Some err), d') \<Longrightarrow>
   Decode_loop d ew = (Some (Wrapped ''read field: '' err), d', fst ew)"
  by (simp add: Decode_loop.simps [of d ew])

lemma Decode_loop_boundary:
  "ReadField d = (([], [], None), d') \<Longrightarrow> Decode_loop d ew = (None, d', fst ew)"
  by (simp add: Decode_loop.simps [of d ew])

lemma Decode_loop_field:
  "ReadField d = ((f, v, None), d') \<Longrightarrow> f \<noteq> [] \<or> v \<noteq> [] \<Longrightarrow>
   Decode_loop d ew = Decode_loop d' (Decode_switch f v ew)"
  by (auto simp: Decode_loop.simps [of d ew])

definition Decode :: "Decoder \<Rightarrow> Event \<Rightarrow> error option \<times> Decoder \<times> Event" where
  "Decode d e = Decode_loop d (e\<lparr>Type := ''message''\<rparr>, False)"

section \<open>The client\<close>

text \<open>
  The headers the client sets on its request (\<open>None\<close>: not set), and what it reads of a
  response: the status, the value of \<open>Header.Get("content-type")\<close> and the body.
\<close>

record Request =
  hdr_Accept :: "string option"
  hdr_Cache_Control :: "string option"
  hdr_Last_Event_Id :: "string option"

record Response =
  StatusCode :: int
  Status :: string
  ContentType :: string
  RespBody :: Body

text \<open>
  What the client does to the world outside, in order: closing a body, waiting
  (\<open>time.After\<close>, in nanoseconds), handing a request to \<open>HTTPClient.Do\<close>. The world holds
  the results of the calls of \<open>Do\<close> still to come and the effects so far.
\<close>

datatype effect = Closed Body | Waited int | Sent Request

record World =
  script :: "(error + Response) list"
  trace :: "effect list"

text \<open>
  A call returns, or is still waiting for the transport when the script ends, or
  panics (a nil pointer).
\<close>

datatype 'a result = Returns 'a | Blocked | Panics

text \<open>The struct \<open>EventSource\<close>; its \<open>client\<close> is the world.\<close>

record EventSource =
  es_request :: Request
  es_retry :: int
  es_err :: "error option"
  es_r :: "Body option"
  es_dec :: "Decoder option"
  es_lastEventID :: string

record Config =
  cfg_Request :: Request
  cfg_Retry :: int

definition Millisecond :: int where
  "Millisecond = 1000000"

definition Second :: int where
  "Second = 1000000000"

definition NewConfig :: "Config \<Rightarrow> EventSource" where
  "NewConfig config =
     \<lparr>es_request = (cfg_Request config)
        \<lparr>hdr_Accept := Some ''text/event-stream'', hdr_Cache_Control := Some ''no-cache''\<rparr>,
      es_retry = (if cfg_Retry config \<le> 0 then Second else cfg_Retry config),
      es_err = None,
      es_r = None,
      es_dec = None,
      es_lastEventID = []\<rparr>"

definition Close :: "EventSource \<Rightarrow> World \<Rightarrow> EventSource \<times> World" where
  "Close es w =
     (es\<lparr>es_err := Some ErrClosed\<rparr>,
      case es_r es of
        Some b \<Rightarrow> w\<lparr>trace := trace w @ [Closed b]\<rparr>
      | None \<Rightarrow> w)"

text \<open>
  \<open>EventSource.connect\<close>. The media type that \<open>mime.ParseMediaType\<close> finds in a
  Content-Type is the parameter \<open>pm\<close>. Every \<open>continue\<close> is the recursive call; the
  condition of the loop is tested first.
\<close>

function connect ::
  "(string \<Rightarrow> string) \<Rightarrow> EventSource \<Rightarrow> World \<Rightarrow> (EventSource \<times> World) result" where
  "connect pm es w =
     (if es_err es \<noteq> None then Returns (es, w)
      else
        let w1 = (case es_r es of
                    Some b \<Rightarrow> w\<lparr>trace := trace w @ [Closed b, Waited (es_retry es)]\<rparr>
                  | None \<Rightarrow> w);
            es1 = es\<lparr>es_request :=
                       (es_request es)\<lparr>hdr_Last_Event_Id := Some (es_lastEventID es)\<rparr>\<rparr>
        in case script w1 of
             [] \<Rightarrow> Blocked
           | out # rest \<Rightarrow>
               let w2 = w1\<lparr>script := rest, trace := trace w1 @ [Sent (es_request es1)]\<rparr>
               in (case out of
                     Inl err \<Rightarrow>
                       if errors_Is err ContextCanceled
                       then connect pm (es1\<lparr>es_err := Some err\<rparr>) w2
                       else connect pm es1 w2
                   | Inr resp \<Rightarrow>
                       if StatusCode resp \<ge> 500
                       then connect pm es1 (w2\<lparr>trace := trace w2 @ [Closed (RespBody resp)]\<rparr>)
                       else if StatusCode resp = 204
                       then connect pm (es1\<lparr>es_err := Some ErrClosed\<rparr>)
                              (w2\<lparr>trace := trace w2 @ [Closed (RespBody resp)]\<rparr>)
                       else if StatusCode resp = 200
                       then (let ct = ContentType resp; mt = pm ct
                             in if mt \<noteq> ''text/event-stream''
                                then connect pm
                                       (es1\<lparr>es_err := Some (Errorf
                                          (''invalid response Content-Type ('' @ ct @ '')''))\<rparr>)
                                       (w2\<lparr>trace := trace w2 @ [Closed (RespBody resp)]\<rparr>)
                                else Returns
                                       (es1\<lparr>es_r := Some (RespBody resp),
                                            es_dec := Some (NewDecoder (RespBody resp))\<rparr>, w2))
                       else connect pm
                              (es1\<lparr>es_err := Some (Errorf
                                 (''endpoint returned unrecoverable status '' @ Status resp))\<rparr>)
                              w2))"
  by pat_completeness auto
termination
  by (relation "measure (\<lambda>(pm, es, w). length (script w))")
     (auto split: option.splits)

declare connect.simps [simp del]

text \<open>
  One turn of the loop of \<open>connect\<close>, in pieces: the client once the header is set, what
  the client does before and by the request, and closing the body of a response.
\<close>

definition with_header :: "EventSource \<Rightarrow> EventSource" where
  "with_header es =
     es\<lparr>es_request := (es_request es)\<lparr>hdr_Last_Event_Id := Some (es_lastEventID es)\<rparr>\<rparr>"

definition before_request :: "EventSource \<Rightarrow> effect list" where
  "before_request es =
     (case es_r es of Some b \<Rightarrow> [Closed b, Waited (es_retry es)] | None \<Rightarrow> [])"

definition after_request :: "EventSource \<Rightarrow> World \<Rightarrow> World" where
  "after_request es w =
     w\<lparr>script := tl (script w),
       trace := trace w @ before_request es @ [Sent (es_request (with_header es))]\<rparr>"

definition closing :: "Body \<Rightarrow> World \<Rightarrow> World" where
  "closing b w = w\<lparr>trace := trace w @ [Closed b]\<rparr>"

lemma connect_err: "es_err es = Some e \<Longrightarrow> connect pm es w = Returns (es, w)"
  by (simp add: connect.simps [of pm es w])

lemma connect_Nil: "es_err es = None \<Longrightarrow> script w = [] \<Longrightarrow> connect pm es w = Blocked"
  by (simp add: connect.simps [of pm es w] Let_def split: option.splits)

lemma connect_step:
  assumes "es_err es = None" and "script w = out # rest"
  shows "connect pm es w =
     (case out of
        Inl err \<Rightarrow>
          if errors_Is err ContextCanceled
          then Returns ((with_header es)\<lparr>es_err := Some err\<rparr>, after_request es w)
          else connect pm (with_header es) (after_request es w)
      | Inr resp \<Rightarrow>
          if StatusCode resp \<ge> 500
          then connect pm (with_header es) (closing (RespBody resp) (after_request es w))
          else if StatusCode resp = 204
          then Returns ((with_header es)\<lparr>es_err := Some ErrClosed\<rparr>,
                        closing (RespBody resp) (after_request es w))
          else if StatusCode resp = 200
          then (if pm (ContentType resp) \<noteq> ''text/event-stream''
                then Returns ((with_header es)\<lparr>es_err := Some (Errorf
                        (''invalid response Content-Type ('' @ ContentType resp @ '')''))\<rparr>,
                      closing (RespBody resp) (after_request es w))
                else Returns ((with_header es)\<lparr>es_r := Some (RespBody resp),
                        es_dec := Some (NewDecoder (RespBody resp))\<rparr>, after_request es w))
          else Returns ((with_header es)\<lparr>es_err := Some (Errorf
                  (''endpoint returned unrecoverable status '' @ Status resp))\<rparr>,
                after_request es w))"
  using assms
  by (simp add: connect.simps [of pm es w] Let_def connect_err with_header_def
        after_request_def before_request_def closing_def
      split: option.splits sum.splits)

lemma connect_script_le:
  "connect pm es w = Returns (es', w') \<Longrightarrow>
     length (script w') \<le> length (script w) \<and>
     (es_err es = None \<longrightarrow> length (script w') < length (script w))"
proof (induction "script w" arbitrary: es w)
  case Nil
  then show ?case
    by (cases "es_err es") (auto simp: connect_Nil connect_err)
next
  case (Cons out rest)
  show ?case
  proof (cases "es_err es")
    case (Some e)
    with Cons.prems show ?thesis by (simp add: connect_err)
  next
    case None
    have s1: "script (after_request es w) = rest"
      using Cons.hyps(2) [symmetric] by (simp add: after_request_def)
    have s2: "script (closing b (after_request es w)) = rest" for b
      using s1 by (simp add: closing_def)
    have ih1: "connect pm es1 (after_request es w) = Returns (es', w') \<Longrightarrow>
               length (script w') \<le> length rest" for es1
      using Cons.hyps(1) [of "after_request es w" es1] s1 by simp
    have ih2: "connect pm es1 (closing b (after_request es w)) = Returns (es', w') \<Longrightarrow>
               length (script w') \<le> length rest" for es1 b
      using Cons.hyps(1) [of "closing b (after_request es w)" es1] s2 by simp
    from Cons.prems None Cons.hyps(2) [symmetric] show ?thesis
      by (auto simp: connect_step [OF None Cons.hyps(2) [symmetric]] s1 s2
               split: sum.splits if_splits dest!: ih1 ih2)
  qed
qed

text \<open>
  \<open>strconv.Atoi\<close> where \<open>int\<close> has 64 bits: an optional sign, then one or more decimal
  digits, and a value within the range of \<open>int\<close>; anything else is an error (\<open>None\<close>).
\<close>

definition is_digit :: "char \<Rightarrow> bool" where
  "is_digit c = in_range 48 57 (of_char c)"

fun digits_value :: "int \<Rightarrow> string \<Rightarrow> int" where
  "digits_value n [] = n"
| "digits_value n (c # cs) = digits_value (n * 10 + (of_char c - 48)) cs"

definition Atoi :: "string \<Rightarrow> int option" where
  "Atoi s =
     (let neg = (s \<noteq> [] \<and> hd s = CHR ''-'');
          ds = (if s \<noteq> [] \<and> (hd s = CHR ''-'' \<or> hd s = CHR ''+'') then tl s else s)
      in if ds = [] \<or> \<not> list_all is_digit ds then None
         else let v = (if neg then - digits_value 0 ds else digits_value 0 ds)
              in if - (2 ^ 63) \<le> v \<and> v < 2 ^ 63 then Some v else None)"

text \<open>Multiplication of two \<open>time.Duration\<close> values: 64 bits, two's complement.\<close>

definition Duration_mul :: "int \<Rightarrow> int \<Rightarrow> int" where
  "Duration_mul a b = signed_take_bit 63 (a * b)"

lemma ReadField_progress:
  assumes "ReadField d = ((f, v, eo), d')" and "\<forall>se. eo \<noteq> Some (Stream se)"
  shows "length (remaining d') < length (remaining d)"
proof -
  define d0 where "d0 = (if \<not> checkedBOM d then checkBOM d else d)"
  have le: "length (remaining d0) \<le> length (remaining d)"
    by (simp add: d0_def checkBOM_remaining_le)
  obtain res d1 where rl: "ReadField_line d0 [] = (res, d1)"
    by (cases "ReadField_line d0 []")
  from assms rl obtain b where "res = Inr b" and "d' = d1"
    unfolding ReadField_def Let_def d0_def [symmetric]
    by (cases res) (auto split: if_splits prod.splits)
  with rl have "length (remaining d') < length (remaining d0)"
    by (auto dest: ReadField_line_shorter)
  with le show ?thesis by simp
qed

lemma Decode_loop_progress:
  "Decode_loop d ew = (r, d', e') \<Longrightarrow>
   \<forall>se. r \<noteq> Some (Wrapped ''read field: '' (Stream se)) \<Longrightarrow>
   length (remaining d') < length (remaining d)"
proof (induction d ew rule: Decode_loop.induct)
  case (1 d ew)
  obtain f v eo d1 where rf: "ReadField d = ((f, v, eo), d1)"
    by (cases "ReadField d") auto
  show ?case
  proof (cases eo)
    case (Some err)
    with rf "1.prems" have "d' = d1" and "\<forall>se. eo \<noteq> Some (Stream se)"
      by (auto simp: Decode_loop_error)
    with rf show ?thesis by (auto dest: ReadField_progress)
  next
    case None
    with rf have lt: "length (remaining d1) < length (remaining d)"
      by (auto dest: ReadField_shorter)
    show ?thesis
    proof (cases "f = [] \<and> v = []")
      case True
      with rf None "1.prems" have "d' = d1"
        by (simp add: Decode_loop_boundary)
      with lt show ?thesis by simp
    next
      case False
      with rf None "1.prems"(1)
      have "Decode_loop d1 (Decode_switch f v ew) = (r, d', e')"
        by (simp add: Decode_loop_field)
      moreover from False have "\<not> (length f = 0 \<and> length v = 0)" by simp
      ultimately have "length (remaining d') < length (remaining d1)"
        using "1.IH" [OF rf [symmetric] refl refl None] "1.prems"(2) by blast
      with lt show ?thesis by simp
    qed
  qed
qed

lemma Decode_progress:
  "Decode d e = (r, d', e') \<Longrightarrow>
   (case r of None \<Rightarrow> True | Some x \<Rightarrow> errors_Is x ErrInvalidEncoding) \<Longrightarrow>
   length (remaining d') < length (remaining d)"
  unfolding Decode_def
  by (erule Decode_loop_progress) (auto split: option.splits)

text \<open>
  \<open>EventSource.Read\<close>: the loop, then the function. The event \<open>e\<close> of a turn starts as
  the zero value. The result is the pair \<open>(Event, error)\<close>, the client and the world.
\<close>

function Read_loop ::
  "(string \<Rightarrow> string) \<Rightarrow> EventSource \<Rightarrow> World
     \<Rightarrow> ((Event \<times> error option) \<times> EventSource \<times> World) result" where
  "Read_loop pm es w =
     (case es_err es of
        Some err \<Rightarrow> Returns ((zero_Event, Some err), es, w)
      | None \<Rightarrow>
     (case es_dec es of
        None \<Rightarrow> Panics
      | Some d \<Rightarrow>
     (case Decode d zero_Event of
        (Some err, d', e) \<Rightarrow>
          if errors_Is err ErrInvalidEncoding
          then Read_loop pm (es\<lparr>es_dec := Some d'\<rparr>) w
          else (case connect pm (es\<lparr>es_dec := Some d'\<rparr>) w of
                  Returns (es', w') \<Rightarrow> Read_loop pm es' w'
                | Blocked \<Rightarrow> Blocked
                | Panics \<Rightarrow> Panics)
      | (None, d', e) \<Rightarrow>
          if length (Data e) = 0
          then Read_loop pm (es\<lparr>es_dec := Some d'\<rparr>) w
          else
            let es1 = es\<lparr>es_dec := Some d'\<rparr>;
                es2 = (if length (ID e) > 0 \<or> ResetID e
                       then es1\<lparr>es_lastEventID := ID e\<rparr> else es1);
                es3 = (if length (Retry e) > 0
                       then (case Atoi (Retry e) of
                               Some retry \<Rightarrow> es2\<lparr>es_retry := Duration_mul retry Millisecond\<rparr>
                             | None \<Rightarrow> es2)
                       else es2)
            in Returns ((e, None), es3, w))))"
  by pat_completeness auto
termination
proof (relation "measures [\<lambda>(pm, es, w). length (script w),
                           \<lambda>(pm, es, w). case es_dec es of
                                           Some d \<Rightarrow> length (remaining d)
                                         | None \<Rightarrow> 0]", goal_cases)
  case 1
  show ?case by simp
next
  case (2 pm es w d x y d' e)
  then have "Decode d zero_Event = (None, d', e)" by simp
  from Decode_progress [OF this] 2 show ?case by simp
next
  case (3 pm es w d x y err d' e)
  then have "Decode d zero_Event = (Some err, d', e)" by simp
  from Decode_progress [OF this] 3 show ?case by simp
next
  case (4 pm es w d x y err d' e r es' w')
  then have "connect pm (es\<lparr>es_dec := Some d'\<rparr>) w = Returns (es', w')" by simp
  from connect_script_le [OF this] 4 show ?case by auto
qed

declare Read_loop.simps [simp del]

definition Read ::
  "(string \<Rightarrow> string) \<Rightarrow> EventSource \<Rightarrow> World
     \<Rightarrow> ((Event \<times> error option) \<times> EventSource \<times> World) result" where
  "Read pm es w =
     (case (if es_r es = None then connect pm es w else Returns (es, w)) of
        Returns (es', w') \<Rightarrow> Read_loop pm es' w'
      | Blocked \<Rightarrow> Blocked
      | Panics \<Rightarrow> Panics)"

section \<open>Callers and sample inputs\<close>

text \<open>A caller that calls \<open>Read\<close> \<open>n\<close> times in a row and collects the results.\<close>

primrec Read_times ::
  "(string \<Rightarrow> string) \<Rightarrow> nat \<Rightarrow> EventSource \<Rightarrow> World
     \<Rightarrow> ((Event \<times> error option) list \<times> EventSource \<times> World) result" where
  "Read_times pm 0 es w = Returns ([], es, w)"
| "Read_times pm (Suc n) es w =
     (case Read pm es w of
        Returns (r, es', w') \<Rightarrow>
          (case Read_times pm n es' w' of
             Returns (rs, es'', w'') \<Rightarrow> Returns (r # rs, es'', w'')
           | Blocked \<Rightarrow> Blocked
           | Panics \<Rightarrow> Panics)
      | Blocked \<Rightarrow> Blocked
      | Panics \<Rightarrow> Panics)"

text \<open>
  Sample inputs: a stand-in for \<open>mime.ParseMediaType\<close> (the text before the first
  semicolon), a client as \<open>New\<close> builds it, bodies that end with \<open>io.EOF\<close>, and
  responses.
\<close>

definition sample_pm :: "string \<Rightarrow> string" where
  "sample_pm ct = takeWhile (\<lambda>c. c \<noteq> CHR '';'') ct"

definition sample_client :: EventSource where
  "sample_client =
     NewConfig \<lparr>cfg_Request = \<lparr>hdr_Accept = None, hdr_Cache_Control = None,
                               hdr_Last_Event_Id = None\<rparr>,
                cfg_Retry = - 1\<rparr>"

definition stream_of :: "bytes \<Rightarrow> Body" where
  "stream_of s = \<lparr>content = s, fin = EOF\<rparr>"

definition event_stream :: "bytes \<Rightarrow> error + Response" where
  "event_stream s =
     Inr \<lparr>StatusCode = 200, Status = ''200 OK'', ContentType = ''text/event-stream'',
          RespBody = stream_of s\<rparr>"

definition status_only :: "int \<Rightarrow> string \<Rightarrow> error + Response" where
  "status_only code text =
     Inr \<lparr>StatusCode = code, Status = text, ContentType = [], RespBody = stream_of []\<rparr>"

text \<open>
  A caller that calls \<open>Read\<close> and \<open>Close\<close> in any order; the results of its calls of
  \<open>Read\<close>. For a client that has a terminal error \<open>e\<close>: the results such a caller is to
  get, and the effects of its calls of \<open>Close\<close>.
\<close>

datatype call = Call_Read | Call_Close

fun run_calls ::
  "(string \<Rightarrow> string) \<Rightarrow> call list \<Rightarrow> EventSource \<Rightarrow> World
     \<Rightarrow> ((Event \<times> error option) list \<times> EventSource \<times> World) result" where
  "run_calls pm [] es w = Returns ([], es, w)"
| "run_calls pm (Call_Close # cs) es w =
     (case Close es w of (es', w') \<Rightarrow> run_calls pm cs es' w')"
| "run_calls pm (Call_Read # cs) es w =
     (case Read pm es w of
        Returns (r, es', w') \<Rightarrow>
          (case run_calls pm cs es' w' of
             Returns (rs, es'', w'') \<Rightarrow> Returns (r # rs, es'', w'')
           | Blocked \<Rightarrow> Blocked
           | Panics \<Rightarrow> Panics)
      | Blocked \<Rightarrow> Blocked
      | Panics \<Rightarrow> Panics)"

fun results_after :: "error \<Rightarrow> call list \<Rightarrow> (Event \<times> error option) list" where
  "results_after e [] = []"
| "results_after e (Call_Read # cs) = (zero_Event, Some e) # results_after e cs"
| "results_after e (Call_Close # cs) = results_after ErrClosed cs"

fun closes_of :: "EventSource \<Rightarrow> call list \<Rightarrow> effect list" where
  "closes_of es [] = []"
| "closes_of es (Call_Read # cs) = closes_of es cs"
| "closes_of es (Call_Close # cs) =
     (case es_r es of Some b \<Rightarrow> [Closed b] | None \<Rightarrow> []) @ closes_of es cs"

text \<open>A server that answers 404.\<close>

definition not_found :: World where
  "not_found = \<lparr>script = [status_only 404 ''404 Not Found''], trace = []\<rparr>"

text \<open>
  The fields that the loop of \<open>Decode\<close> reads from a decoder before it stops (at the
  empty line or at an error), the values of the \<open>data\<close> fields among them, lines joined
  by newlines, and the \<open>switch\<close> of \<open>Decode\<close> run over a list of fields.
\<close>

function Decode_fields :: "Decoder \<Rightarrow> (string \<times> bytes) list" where
  "Decode_fields d =
     (case ReadField d of
        ((field, val, Some err), d') \<Rightarrow> []
      | ((field, val, None), d') \<Rightarrow>
          if length field = 0 \<and> length val = 0 then []
          else (field, val) # Decode_fields d')"
  by pat_completeness auto
termination
  by (relation "measure (\<lambda>d. length (remaining d))")
     (auto dest: ReadField_shorter [OF sym])

declare Decode_fields.simps [simp del]

fun join_lines :: "bytes list \<Rightarrow> bytes" where
  "join_lines [] = []"
| "join_lines [v] = v"
| "join_lines (v # vs) = v @ [LF] @ join_lines vs"

definition data_values :: "(string \<times> bytes) list \<Rightarrow> bytes list" where
  "data_values fs = map snd (filter (\<lambda>fv. fst fv = ''data'') fs)"

abbreviation switch_all :: "Event \<times> bool \<Rightarrow> (string \<times> bytes) list \<Rightarrow> Event \<times> bool" where
  "switch_all \<equiv> foldl (\<lambda>ew fv. Decode_switch (fst fv) (snd fv) ew)"

text \<open>
  The client after \<open>Read\<close> has taken over the ID and the retry interval of an event it
  delivers.
\<close>

definition delivered :: "EventSource \<Rightarrow> Event \<Rightarrow> EventSource" where
  "delivered es e =
     es\<lparr>es_lastEventID := (if length (ID e) > 0 \<or> ResetID e then ID e else es_lastEventID es),
        es_retry := (if length (Retry e) > 0
                     then (case Atoi (Retry e) of
                             Some retry \<Rightarrow> Duration_mul retry Millisecond
                           | None \<Rightarrow> es_retry es)
                     else es_retry es)\<rparr>"

text \<open>Requests among effects; effects whose requests all carry a given Last-Event-Id.\<close>

definition is_Sent :: "effect \<Rightarrow> bool" where
  "is_Sent x = (case x of Sent req \<Rightarrow> True | _ \<Rightarrow> False)"

definition resumes_from :: "string \<Rightarrow> effect list \<Rightarrow> bool" where
  "resumes_from lid new =
     list_all (\<lambda>x. case x of Sent req \<Rightarrow> hdr_Last_Event_Id req = Some lid | _ \<Rightarrow> True) new"

text \<open>
  What a returned \<open>Read\<close> has done, from the client \<open>es\<close> and the world \<open>w\<close> before the
  call: an event is delivered with data, and then the sticky ID and the retry interval
  are those of \<open>delivered\<close>; or the zero event comes with the terminal error, and then
  both are as before; and every request made meanwhile carries the Last-Event-Id the
  client had before the call.
\<close>

definition Read_post ::
  "EventSource \<Rightarrow> World \<Rightarrow> (Event \<times> error option) \<times> EventSource \<times> World \<Rightarrow> bool" where
  "Read_post es w res =
     (case res of ((ev, eo), es', w') \<Rightarrow>
        (case eo of
           None \<Rightarrow>
             length (Data ev) > 0 \<and> es_err es' = None \<and>
             es_lastEventID es' =
               (if length (ID ev) > 0 \<or> ResetID ev then ID ev else es_lastEventID es) \<and>
             es_retry es' =
               (if length (Retry ev) > 0
                then (case Atoi (Retry ev) of
                        Some retry \<Rightarrow> Duration_mul retry Millisecond
                      | None \<Rightarrow> es_retry es)
                else es_retry es)
         | Some err \<Rightarrow>
             ev = zero_Event \<and> es_err es' = Some err \<and>
             es_lastEventID es' = es_lastEventID es \<and> es_retry es' = es_retry es) \<and>
        (\<exists>new. trace w' = trace w @ new \<and> resumes_from (es_lastEventID es) new))"

text \<open>
  The table of the specification for the outcome of one connection attempt: the error
  or the response that \<open>Do\<close> returned is fatal, recoverable or a success.
\<close>

datatype verdict = Fatal | Recoverable | Success

definition classify :: "(string \<Rightarrow> string) \<Rightarrow> error + Response \<Rightarrow> verdict" where
  "classify pm out =
     (case out of
        Inl err \<Rightarrow> if errors_Is err ContextCanceled then Fatal else Recoverable
      | Inr resp \<Rightarrow>
          if StatusCode resp \<ge> 500 then Recoverable
          else if StatusCode resp = 204 then Fatal
          else if StatusCode resp = 200 \<and> pm (ContentType resp) = ''text/event-stream''
          then Success
          else Fatal)"

text \<open>
  Sample worlds: a stream with one event followed by a second stream; a server that
  answers 500 once and then streams.
\<close>

definition two_streams :: World where
  "two_streams =
     \<lparr>script = [event_stream (''id: 7'' @ [LF] @ ''data: a'' @ [LF, LF]),
                event_stream (''data: b'' @ [LF, LF])],
      trace = []\<rparr>"

definition failing_first :: World where
  "failing_first =
     \<lparr>script = [status_only 500 ''500 Internal Server Error'',
                event_stream (''data: x'' @ [LF, LF])],
      trace = []\<rparr>"

text \<open>
  More sample inputs: streams whose event carries \<open>retry: -5\<close> and \<open>retry: 10000\<close>, and
  a body whose first event has no data.
\<close>

definition negative_retry :: World where
  "negative_retry =
     \<lparr>script = [event_stream (''retry: -5'' @ [LF] @ ''data: x'' @ [LF, LF])], trace = []\<rparr>"

definition ten_seconds :: World where
  "ten_seconds =
     \<lparr>script = [event_stream (''retry: 10000'' @ [LF] @ ''data: foo'' @ [LF, LF])],
      trace = []\<rparr>"

definition blank_first :: Body where
  "blank_first = stream_of (''event: type'' @ [LF] @ ''data'' @ [LF, LF] @ ''data: y'' @ [LF, LF])"

text \<open>
  For the round trip: a line without one trailing \<open>\r\<close>; the line that \<open>writeField\<close>
  writes for a field; a decoder by its parts; a value that \<open>WriteField\<close> writes as one
  line and \<open>ReadLine\<close> returns whole (no newline in it, no \<open>\r\<close> at its end); an
  encoder on a working sink; the lines of \<open>WriteField\<close> for a value; the bytes of
  \<open>Encode\<close> for an event; the four field names of \<open>Encode\<close>; an empty working sink.
\<close>

definition strip_CR :: "bytes \<Rightarrow> bytes" where
  "strip_CR l = (if length l > 0 \<and> last l = CR then butlast l else l)"

definition field_line :: "string \<Rightarrow> bytes \<Rightarrow> bytes" where
  "field_line f v = (if length v = 0 then f @ [LF] else f @ '': '' @ v @ [LF])"

definition dec_at :: "bytes \<Rightarrow> stream_error \<Rightarrow> bool \<Rightarrow> Decoder" where
  "dec_at s fe b = \<lparr>dec_r = \<lparr>content = s, fin = fe\<rparr>, checkedBOM = b\<rparr>"

definition single_line :: "bytes \<Rightarrow> bool" where
  "single_line s = (LF \<notin> set s \<and> (s = [] \<or> last s \<noteq> CR))"

definition enc_at :: "bytes \<Rightarrow> Encoder" where
  "enc_at out = \<lparr>enc_w = \<lparr>written = out, broken = None\<rparr>\<rparr>"

definition field_lines :: "string \<Rightarrow> bytes \<Rightarrow> bytes" where
  "field_lines f v = concat (map (\<lambda>l. field_line f (strip_CR l)) (bytes_Split v))"

definition wire :: "Event \<Rightarrow> bytes" where
  "wire E =
     (if ResetID E \<or> length (ID E) > 0 then field_lines ''id'' (ID E) else []) @
     (if length (Retry E) > 0 then field_lines ''retry'' (Retry E) else []) @
     (if length (Type E) > 0 then field_lines ''event'' (Type E) else []) @
     field_lines ''data'' (Data E) @ [LF]"

definition known_field :: "string \<Rightarrow> bool" where
  "known_field f = (f = ''id'' \<or> f = ''retry'' \<or> f = ''event'' \<or> f = ''data'')"

definition working_sink :: FlushWriter where
  "working_sink = \<lparr>written = [], broken = None\<rparr>"

section \<open>Evaluating the codec on concrete streams\<close>

lemmas codec_eval =
  ReadField_def ReadField_line.simps ReadLine_def Let_def remaining_def advance_def
  bufSize_def checkBOM_def BOM_def NewDecoder_def bytes_Cut_def utf8_Valid_def
  in_range_def Decode_def Decode_loop.simps Decode_switch_def zero_Event_def stream_of_def

lemmas client_eval =
  Read_def Read_loop.simps connect.simps NewConfig_def Close_def sample_client_def
  sample_pm_def event_stream_def status_only_def Second_def Millisecond_def
  Duration_mul_def Atoi_def is_digit_def

lemmas encoder_eval =
  Encode_def WriteField_def writeField_def Write_def Flush_def NewEncoder_def

section \<open>The loops of \<open>Read\<close> and \<open>connect\<close>, turn by turn\<close>

lemma Read_loop_err:
  "es_err es = Some e \<Longrightarrow> Read_loop pm es w = Returns ((zero_Event, Some e), es, w)"
  by (simp add: Read_loop.simps [of pm es w])

lemma Read_err:
  "es_err es = Some e \<Longrightarrow> Read pm es w = Returns ((zero_Event, Some e), es, w)"
  by (simp add: Read_def connect_err Read_loop_err)

lemma Read_loop_panic:
  "es_err es = None \<Longrightarrow> es_dec es = None \<Longrightarrow> Read_loop pm es w = Panics"
  by (simp add: Read_loop.simps [of pm es w])

lemma Read_loop_invalid:
  "es_err es = None \<Longrightarrow> es_dec es = Some d \<Longrightarrow> Decode d zero_Event = (Some x, d', e) \<Longrightarrow>
   errors_Is x ErrInvalidEncoding \<Longrightarrow>
   Read_loop pm es w = Read_loop pm (es\<lparr>es_dec := Some d'\<rparr>) w"
  by (simp add: Read_loop.simps [of pm es w])

lemma Read_loop_reconnect:
  "es_err es = None \<Longrightarrow> es_dec es = Some d \<Longrightarrow> Decode d zero_Event = (Some x, d', e) \<Longrightarrow>
   \<not> errors_Is x ErrInvalidEncoding \<Longrightarrow>
   Read_loop pm es w =
     (case connect pm (es\<lparr>es_dec := Some d'\<rparr>) w of
        Returns (es', w') \<Rightarrow> Read_loop pm es' w'
      | Blocked \<Rightarrow> Blocked
      | Panics \<Rightarrow> Panics)"
  by (simp add: Read_loop.simps [of pm es w])

lemma Read_loop_discard:
  "es_err es = None \<Longrightarrow> es_dec es = Some d \<Longrightarrow> Decode d zero_Event = (None, d', e) \<Longrightarrow>
   length (Data e) = 0 \<Longrightarrow>
   Read_loop pm es w = Read_loop pm (es\<lparr>es_dec := Some d'\<rparr>) w"
  by (simp add: Read_loop.simps [of pm es w])

lemma Read_loop_deliver:
  "es_err es = None \<Longrightarrow> es_dec es = Some d \<Longrightarrow> Decode d zero_Event = (None, d', e) \<Longrightarrow>
   length (Data e) \<noteq> 0 \<Longrightarrow>
   Read_loop pm es w = Returns ((e, None), delivered (es\<lparr>es_dec := Some d'\<rparr>) e, w)"
  by (simp add: Read_loop.simps [of pm es w] Let_def delivered_def split: option.splits)

lemma Read_loop_induct [consumes 0, case_names step]:
  assumes step: "\<And>pm es w.
     (\<And>d x d' e. es_err es = None \<Longrightarrow> es_dec es = Some d \<Longrightarrow>
         Decode d zero_Event = (Some x, d', e) \<Longrightarrow> errors_Is x ErrInvalidEncoding \<Longrightarrow>
         P pm (es\<lparr>es_dec := Some d'\<rparr>) w) \<Longrightarrow>
     (\<And>d x d' e es' w'. es_err es = None \<Longrightarrow> es_dec es = Some d \<Longrightarrow>
         Decode d zero_Event = (Some x, d', e) \<Longrightarrow> \<not> errors_Is x ErrInvalidEncoding \<Longrightarrow>
         connect pm (es\<lparr>es_dec := Some d'\<rparr>) w = Returns (es', w') \<Longrightarrow> P pm es' w') \<Longrightarrow>
     (\<And>d d' e. es_err es = None \<Longrightarrow> es_dec es = Some d \<Longrightarrow>
         Decode d zero_Event = (None, d', e) \<Longrightarrow> length (Data e) = 0 \<Longrightarrow>
         P pm (es\<lparr>es_dec := Some d'\<rparr>) w) \<Longrightarrow>
     P pm es w"
  shows "P pm es w"
proof (induction pm es w rule: Read_loop.induct)
  case (1 pm es w)
  note ih = "1.IH"
  show ?case
  proof (rule step, goal_cases)
    case (1 d x d' e)
    show ?case by (rule ih(2) [OF 1(1) 1(2) 1(3) [symmetric] refl refl 1(4)])
  next
    case (2 d x d' e es' w')
    show ?case by (rule ih(3) [OF 2(1) 2(2) 2(3) [symmetric] refl refl 2(4) 2(5) refl])
  next
    case (3 d d' e)
    show ?case by (rule ih(1) [OF 3(1) 3(2) 3(3) [symmetric] refl refl 3(4)])
  qed
qed

lemma resumes_from_append [simp]:
  "resumes_from lid (xs @ ys) = (resumes_from lid xs \<and> resumes_from lid ys)"
  by (simp add: resumes_from_def)

lemma resumes_from_Nil [simp]: "resumes_from lid []"
  by (simp add: resumes_from_def)

lemma resumes_from_Closed [simp]: "resumes_from lid (Closed b # xs) = resumes_from lid xs"
  by (simp add: resumes_from_def)

lemma resumes_from_Waited [simp]: "resumes_from lid (Waited n # xs) = resumes_from lid xs"
  by (simp add: resumes_from_def)

lemma resumes_from_Sent [simp]:
  "resumes_from lid (Sent req # xs) =
     (hdr_Last_Event_Id req = Some lid \<and> resumes_from lid xs)"
  by (simp add: resumes_from_def)

lemma after_request_trace:
  "trace (after_request es w) = trace w @ before_request es @ [Sent (es_request (with_header es))]"
  by (simp add: after_request_def)

lemma before_request_resumes [simp]: "resumes_from lid (before_request es)"
  by (simp add: before_request_def split: option.splits)

lemma before_request_no_Sent [simp]: "filter is_Sent (before_request es) = []"
  by (simp add: before_request_def is_Sent_def split: option.splits)

lemma with_header_simps [simp]:
  "es_lastEventID (with_header es) = es_lastEventID es"
  "es_retry (with_header es) = es_retry es"
  "es_err (with_header es) = es_err es"
  "es_r (with_header es) = es_r es"
  "es_dec (with_header es) = es_dec es"
  "hdr_Last_Event_Id (es_request (with_header es)) = Some (es_lastEventID es)"
  by (simp_all add: with_header_def)

lemma connect_frame:
  "connect pm es w = Returns (es', w') \<Longrightarrow>
     es_lastEventID es' = es_lastEventID es \<and> es_retry es' = es_retry es \<and>
     (\<exists>new. trace w' = trace w @ new \<and> resumes_from (es_lastEventID es) new \<and>
        length (filter is_Sent new) + length (script w') = length (script w))"
proof (induction "script w" arbitrary: es w)
  case Nil
  then show ?case
    by (cases "es_err es") (auto simp: connect_Nil connect_err)
next
  case (Cons out rest)
  show ?case
  proof (cases "es_err es")
    case (Some e)
    with Cons.prems show ?thesis by (simp add: connect_err)
  next
    case None
    let ?w2 = "after_request es w"
    have s1: "script ?w2 = rest"
      using Cons.hyps(2) [symmetric] by (simp add: after_request_def)
    have t1: "trace ?w2 = trace w @ before_request es @ [Sent (es_request (with_header es))]"
      by (rule after_request_trace)
    have len: "length (script w) = Suc (length rest)"
      using Cons.hyps(2) [symmetric] by simp
    define Q where "Q \<longleftrightarrow>
      es_lastEventID es' = es_lastEventID es \<and> es_retry es' = es_retry es \<and>
      (\<exists>new. trace w' = trace w @ new \<and> resumes_from (es_lastEventID es) new \<and>
        length (filter is_Sent new) + length (script w') = length (script w))"
    have direct: Q
      if "es_lastEventID es' = es_lastEventID es" "es_retry es' = es_retry es"
         "w' = ?w2 \<or> (\<exists>b. w' = closing b ?w2)"
    proof -
      from that(3) obtain tl where "trace w' = trace ?w2 @ tl" "filter is_Sent tl = []"
        "resumes_from (es_lastEventID es) tl" "script w' = rest"
        using s1 by (auto simp: closing_def is_Sent_def)
      with that(1,2) t1 len show ?thesis
        unfolding Q_def by (auto simp: is_Sent_def)
    qed
    have again: Q
      if "connect pm (with_header es) w2 = Returns (es', w')"
         "w2 = ?w2 \<or> (\<exists>b. w2 = closing b ?w2)" for w2
    proof -
      from that(2) obtain tl where w2: "trace w2 = trace ?w2 @ tl" "filter is_Sent tl = []"
        "resumes_from (es_lastEventID es) tl" "script w2 = rest"
        using s1 by (auto simp: closing_def is_Sent_def)
      from Cons.hyps(1) [OF w2(4) [symmetric] that(1)]
      obtain new where "es_lastEventID es' = es_lastEventID es" "es_retry es' = es_retry es"
        "trace w' = trace w2 @ new" "resumes_from (es_lastEventID es) new"
        "length (filter is_Sent new) + length (script w') = length rest"
        using w2(4) by auto
      with w2 t1 len show ?thesis
        unfolding Q_def by (auto simp: is_Sent_def)
    qed
    from Cons.prems have Q
      unfolding connect_step [OF None Cons.hyps(2) [symmetric]]
      by (auto split: sum.splits if_splits intro: direct again)
    then show ?thesis unfolding Q_def .
  qed
qed

lemma Read_post_transfer:
  assumes "Read_post es1 w1 res"
    and "es_lastEventID es1 = es_lastEventID es" and "es_retry es1 = es_retry es"
    and "trace w1 = trace w @ new1" and "resumes_from (es_lastEventID es) new1"
  shows "Read_post es w res"
proof -
  obtain ev eo es' w' where res: "res = ((ev, eo), es', w')"
    by (cases res) auto
  from assms(1) obtain new where "trace w' = trace w1 @ new" "resumes_from (es_lastEventID es1) new"
    unfolding res Read_post_def by auto
  with assms(2,4,5) have "trace w' = trace w @ (new1 @ new) \<and>
      resumes_from (es_lastEventID es) (new1 @ new)" by simp
  then have "\<exists>new. trace w' = trace w @ new \<and> resumes_from (es_lastEventID es) new" ..
  with assms(1,2,3) show ?thesis
    unfolding res Read_post_def by (simp split: option.splits)
qed

lemma Read_loop_result:
  "Read_loop pm es w = Returns res \<Longrightarrow> Read_post es w res"
proof (induction pm es w arbitrary: res rule: Read_loop_induct)
  case (step pm es w)
  show ?case
  proof (cases "es_err es")
    case (Some err)
    with step.prems show ?thesis
      by (auto simp: Read_loop_err Read_post_def)
  next
    case None
    show ?thesis
    proof (cases "es_dec es")
      case no_dec: None
      with None step.prems show ?thesis by (simp add: Read_loop_panic)
    next
      case (Some d)
      obtain r d' e where dec: "Decode d zero_Event = (r, d', e)"
        by (cases "Decode d zero_Event") auto
      let ?es1 = "es\<lparr>es_dec := Some d'\<rparr>"
      show ?thesis
      proof (cases r)
        case derr: (Some x)
        show ?thesis
        proof (cases "errors_Is x ErrInvalidEncoding")
          case True
          with None Some dec derr step.prems have "Read_loop pm ?es1 w = Returns res"
            by (simp add: Read_loop_invalid)
          with step.IH(1) [OF None Some dec [unfolded derr] True]
          have "Read_post ?es1 w res" .
          then show ?thesis
            by (rule Read_post_transfer [where ?new1.0 = "[]"]) simp_all
        next
          case False
          from None Some dec derr False
          have eq: "Read_loop pm es w =
             (case connect pm ?es1 w of
                Returns (es', w') \<Rightarrow> Read_loop pm es' w'
              | Blocked \<Rightarrow> Blocked
              | Panics \<Rightarrow> Panics)"
            by (simp add: Read_loop_reconnect)
          with step.prems obtain es2 w2 where
            con: "connect pm ?es1 w = Returns (es2, w2)" and
            rl: "Read_loop pm es2 w2 = Returns res"
            by (auto split: result.splits)
          from step.IH(2) [OF None Some dec [unfolded derr] False con rl]
          have post: "Read_post es2 w2 res" .
          from connect_frame [OF con] obtain new1 where
            "es_lastEventID es2 = es_lastEventID es" "es_retry es2 = es_retry es"
            "trace w2 = trace w @ new1" "resumes_from (es_lastEventID es) new1"
            by auto
          with post show ?thesis by (rule Read_post_transfer)
        qed
      next
        case ok: None
        show ?thesis
        proof (cases "length (Data e) = 0")
          case True
          with None Some dec ok step.prems have "Read_loop pm ?es1 w = Returns res"
            by (simp add: Read_loop_discard)
          with step.IH(3) [OF None Some dec [unfolded ok] True]
          have "Read_post ?es1 w res" .
          then show ?thesis
            by (rule Read_post_transfer [where ?new1.0 = "[]"]) simp_all
        next
          case False
          with None Some dec ok step.prems
          have "res = ((e, None), delivered ?es1 e, w)"
            by (simp add: Read_loop_deliver)
          with None False show ?thesis
            by (simp add: Read_post_def delivered_def split: option.splits)
        qed
      qed
    qed
  qed
qed

lemma Read_result:
  assumes "Read pm es w = Returns res"
  shows "Read_post es w res"
proof (cases "es_r es = None")
  case True
  with assms obtain es1 w1 where
    con: "connect pm es w = Returns (es1, w1)" and rl: "Read_loop pm es1 w1 = Returns res"
    by (auto simp: Read_def split: result.splits)
  from connect_frame [OF con] obtain new1 where
    "es_lastEventID es1 = es_lastEventID es" "es_retry es1 = es_retry es"
    "trace w1 = trace w @ new1" "resumes_from (es_lastEventID es) new1"
    by auto
  with Read_loop_result [OF rl] show ?thesis by (rule Read_post_transfer)
next
  case False
  with assms have "Read_loop pm es w = Returns res"
    by (simp add: Read_def)
  then show ?thesis by (rule Read_loop_result)
qed

section \<open>Terminal errors\<close>

text \<open>
  A client whose request is answered with 404 records that as its terminal error, and
  \<open>Read\<close> returns it. After a \<open>Close\<close> the next \<open>Read\<close> returns \<open>ErrClosed\<close>, which is
  another error.
\<close>

theorem terminal_error_is_permanent_counterexample:
  "run_calls sample_pm [Call_Read, Call_Close, Call_Read] sample_client not_found =
     Returns ([(zero_Event, Some (Errorf ''endpoint returned unrecoverable status 404 Not Found'')),
               (zero_Event, Some ErrClosed)],
       (with_header sample_client)\<lparr>es_err := Some ErrClosed\<rparr>,
       \<lparr>script = [], trace = [Sent (es_request (with_header sample_client))]\<rparr>) \<and>
   Errorf ''endpoint returned unrecoverable status 404 Not Found'' \<noteq> ErrClosed"
  by (simp add: client_eval not_found_def with_header_def)

lemma closes_of_same_reader:
  "es_r es1 = es_r es \<Longrightarrow> closes_of es1 cs = closes_of es cs"
proof (induction cs)
  case Nil
  show ?case by simp
next
  case (Cons c cs)
  then show ?case by (cases c) simp_all
qed

lemma run_calls_terminal:
  "es_err es = Some e \<Longrightarrow>
   run_calls pm cs es w =
     Returns (results_after e cs,
       (if Call_Close \<in> set cs then es\<lparr>es_err := Some ErrClosed\<rparr> else es),
       w\<lparr>trace := trace w @ closes_of es cs\<rparr>)"
proof (induction cs arbitrary: es w e)
  case Nil
  show ?case by simp
next
  case (Cons c cs)
  show ?case
  proof (cases c)
    case Call_Read
    with Cons.prems Cons.IH [OF Cons.prems, of w] show ?thesis
      by (simp add: Read_err)
  next
    case Call_Close
    let ?es1 = "es\<lparr>es_err := Some ErrClosed\<rparr>"
    let ?w1 = "w\<lparr>trace := trace w @ (case es_r es of Some b \<Rightarrow> [Closed b] | None \<Rightarrow> [])\<rparr>"
    have cl: "Close es w = (?es1, ?w1)"
      by (simp add: Close_def split: option.splits)
    have e1: "es_err ?es1 = Some ErrClosed" by simp
    have co: "closes_of ?es1 cs = closes_of es cs"
      by (rule closes_of_same_reader) simp
    from Cons.IH [OF e1, of ?w1] Call_Close cl co show ?thesis
      by simp
  qed
qed

text \<open>
  C3, amended. Once a terminal error is recorded in the client, every later \<open>Read\<close>
  returns the zero event with the terminal error recorded at that moment: the same
  error as long as \<open>Close\<close> is not called, and \<open>ErrClosed\<close> after a \<open>Close\<close>, which
  replaces whatever was recorded. So any number of calls of \<open>Read\<close> in a row return that
  same error, and a caller that calls \<open>Read\<close> and \<open>Close\<close> in any order gets the recorded
  error from the calls of \<open>Read\<close> before its first \<open>Close\<close> and \<open>ErrClosed\<close> from those
  after it. None of these calls makes a request, waits or touches the decoder: the
  script and the client, but for its error, stay as they were, and the only effects are
  those of \<open>Close\<close> closing the body.
\<close>

theorem terminal_error_is_permanent:
  "(es_err es = Some e \<longrightarrow>
      Read_times pm n es w = Returns (replicate n (zero_Event, Some e), es, w) \<and>
      connect pm es w = Returns (es, w) \<and>
      run_calls pm cs es w =
        Returns (results_after e cs,
          (if Call_Close \<in> set cs then es\<lparr>es_err := Some ErrClosed\<rparr> else es),
          w\<lparr>trace := trace w @ closes_of es cs\<rparr>)) \<and>
   Read_times pm n (fst (Close es w)) w' =
     Returns (replicate n (zero_Event, Some ErrClosed), fst (Close es w), w')"
proof -
  have sticky: "Read_times pm n es0 w0 = Returns (replicate n (zero_Event, Some e0), es0, w0)"
    if "es_err es0 = Some e0" for es0 w0 e0
    using that by (induction n) (simp_all add: Read_err)
  have "es_err (fst (Close es w)) = Some ErrClosed"
    by (simp add: Close_def)
  then have "Read_times pm n (fst (Close es w)) w' =
     Returns (replicate n (zero_Event, Some ErrClosed), fst (Close es w), w')"
    by (rule sticky)
  with sticky [of es e w] run_calls_terminal [of es e pm cs w] show ?thesis
    by (simp add: connect_err)
qed

theorem terminal_error_is_permanent_witness:
  "es_err (sample_client\<lparr>es_err := Some (Errorf ''endpoint returned unrecoverable status 404'')\<rparr>)
     = Some (Errorf ''endpoint returned unrecoverable status 404'') \<and>
   Read_times sample_pm 3
     (sample_client\<lparr>es_err := Some (Errorf ''endpoint returned unrecoverable status 404'')\<rparr>)
     two_streams
   = Returns (replicate 3 (zero_Event, Some (Errorf ''endpoint returned unrecoverable status 404'')),
        sample_client\<lparr>es_err := Some (Errorf ''endpoint returned unrecoverable status 404'')\<rparr>,
        two_streams) \<and>
   run_calls sample_pm [Call_Read, Call_Read, Call_Close, Call_Read]
     (sample_client\<lparr>es_err := Some (Errorf ''endpoint returned unrecoverable status 404'')\<rparr>)
     two_streams
   = Returns ([(zero_Event, Some (Errorf ''endpoint returned unrecoverable status 404'')),
               (zero_Event, Some (Errorf ''endpoint returned unrecoverable status 404'')),
               (zero_Event, Some ErrClosed)],
        sample_client\<lparr>es_err := Some ErrClosed\<rparr>,
        two_streams)"
proof -
  have h: "es_err (sample_client\<lparr>es_err := Some (Errorf ''endpoint returned unrecoverable status 404'')\<rparr>)
     = Some (Errorf ''endpoint returned unrecoverable status 404'')"
    by simp
  have r: "es_r sample_client = None"
    by (simp add: sample_client_def NewConfig_def)
  from terminal_error_is_permanent
    [of "sample_client\<lparr>es_err := Some (Errorf ''endpoint returned unrecoverable status 404'')\<rparr>"
        "Errorf ''endpoint returned unrecoverable status 404''" sample_pm 3 two_streams
        "[Call_Read, Call_Read, Call_Close, Call_Read]"]
    h r
  show ?thesis by simp
qed

section \<open>Errors of \<open>ReadField\<close> in \<open>Decode\<close>\<close>

lemma errors_Is_refl: "errors_Is e e"
  by (cases e) simp_all

text \<open>
  On the empty stream \<open>ReadField\<close> returns \<open>io.EOF\<close>, and \<open>Decode\<close> returns another
  value: the error built by \<open>fmt.Errorf("read field: %w", err)\<close>.
\<close>

theorem Decode_wraps_ReadField_error_counterexample:
  "snd (snd (fst (ReadField (NewDecoder (stream_of []))))) = Some (Stream EOF) \<and>
   fst (Decode (NewDecoder (stream_of [])) zero_Event) \<noteq> Some (Stream EOF)"
  by (simp add: codec_eval)

lemma Decode_loop_failed:
  "Decode_loop d ew = (Some x, d', e') \<Longrightarrow>
   \<exists>err f v d0. x = Wrapped ''read field: '' err \<and> ReadField d0 = ((f, v, Some err), d')"
proof (induction d ew rule: Decode_loop.induct)
  case (1 d ew)
  obtain f v eo d1 where rf: "ReadField d = ((f, v, eo), d1)"
    by (cases "ReadField d") auto
  show ?case
  proof (cases eo)
    case (Some err)
    with rf "1.prems" show ?thesis
      by (auto simp: Decode_loop_error)
  next
    case None
    show ?thesis
    proof (cases "f = [] \<and> v = []")
      case True
      with rf None "1.prems" show ?thesis
        by (simp add: Decode_loop_boundary)
    next
      case False
      with rf None "1.prems"
      have "Decode_loop d1 (Decode_switch f v ew) = (Some x, d', e')"
        by (simp add: Decode_loop_field)
      moreover from False have "\<not> (length f = 0 \<and> length v = 0)" by simp
      ultimately show ?thesis
        using "1.IH" [OF rf [symmetric] refl refl None] by blast
    qed
  qed
qed

text \<open>
  C9, amended. Whenever \<open>ReadField\<close> returns an error, in whatever turn of the loop,
  \<open>Decode\<close> returns at once, with the event as it is then, and its error is that of
  \<open>ReadField\<close> wrapped under the prefix \<open>read field: \<close>. Every error of \<open>Decode\<close> is
  such a wrapping: \<open>errors.Is\<close> finds the error of \<open>ReadField\<close> in it, and it is not
  that error itself.
\<close>

theorem Decode_wraps_ReadField_error:
  "(ReadField d = ((f, v, Some err), d') \<longrightarrow>
      Decode_loop d (e, wd) = (Some (Wrapped ''read field: '' err), d', e) \<and>
      Decode d e = (Some (Wrapped ''read field: '' err), d', e\<lparr>Type := ''message''\<rparr>)) \<and>
   (Decode d e = (Some x, d'', e'') \<longrightarrow>
      (\<exists>err0 f0 v0 d0. ReadField d0 = ((f0, v0, Some err0), d'') \<and>
         x = Wrapped ''read field: '' err0 \<and> errors_Is x err0 \<and> x \<noteq> err0))"
proof (intro conjI impI)
  assume rf: "ReadField d = ((f, v, Some err), d')"
  then show "Decode_loop d (e, wd) = (Some (Wrapped ''read field: '' err), d', e)"
    by (simp add: Decode_loop_error)
  from rf show "Decode d e = (Some (Wrapped ''read field: '' err), d', e\<lparr>Type := ''message''\<rparr>)"
    by (simp add: Decode_def Decode_loop_error)
next
  assume "Decode d e = (Some x, d'', e'')"
  then obtain err0 f0 v0 d0 where
    "x = Wrapped ''read field: '' err0" "ReadField d0 = ((f0, v0, Some err0), d'')"
    unfolding Decode_def by (blast dest: Decode_loop_failed)
  then show "\<exists>err0 f0 v0 d0. ReadField d0 = ((f0, v0, Some err0), d'') \<and>
         x = Wrapped ''read field: '' err0 \<and> errors_Is x err0 \<and> x \<noteq> err0"
    by (auto simp: errors_Is_refl)
qed

theorem Decode_wraps_ReadField_error_witness:
  "ReadField (NewDecoder (stream_of [CHR 0xFF, LF])) =
     (([], [], Some ErrInvalidEncoding), \<lparr>dec_r = stream_of [], checkedBOM = True\<rparr>) \<and>
   Decode (NewDecoder (stream_of [CHR 0xFF, LF])) zero_Event =
     (Some (Wrapped ''read field: '' ErrInvalidEncoding),
      \<lparr>dec_r = stream_of [], checkedBOM = True\<rparr>, zero_Event\<lparr>Type := ''message''\<rparr>)"
proof -
  have h: "ReadField (NewDecoder (stream_of [CHR 0xFF, LF])) =
     (([], [], Some ErrInvalidEncoding), \<lparr>dec_r = stream_of [], checkedBOM = True\<rparr>)"
    by (simp add: codec_eval)
  from h Decode_wraps_ReadField_error
    [of "NewDecoder (stream_of [CHR 0xFF, LF])" "[]" "[]" ErrInvalidEncoding
        "\<lparr>dec_r = stream_of [], checkedBOM = True\<rparr>" zero_Event False]
  show ?thesis by simp
qed

section \<open>The event boundary of \<open>ReadField\<close>\<close>




section \<open>Decoding into an event that is used again\<close>

lemma Decode_loop_fields:
  "Decode_loop d ew = (r, d', e') \<Longrightarrow>
   e' = fst (foldl (\<lambda>ew fv. Decode_switch (fst fv) (snd fv) ew) ew (Decode_fields d))"
proof (induction d ew rule: Decode_loop.induct)
  case (1 d ew)
  obtain f v eo d1 where rf: "ReadField d = ((f, v, eo), d1)"
    by (cases "ReadField d") auto
  show ?case
  proof (cases eo)
    case (Some err)
    with rf "1.prems" show ?thesis
      by (auto simp: Decode_loop_error Decode_fields.simps [of d])
  next
    case None
    show ?thesis
    proof (cases "f = [] \<and> v = []")
      case True
      with rf None "1.prems" show ?thesis
        by (auto simp: Decode_loop_boundary Decode_fields.simps [of d])
    next
      case False
      with rf None "1.prems"
      have "Decode_loop d1 (Decode_switch f v ew) = (r, d', e')"
        by (simp add: Decode_loop_field)
      moreover from False have nb: "\<not> (length f = 0 \<and> length v = 0)" by simp
      ultimately have "e' = fst (foldl (\<lambda>ew fv. Decode_switch (fst fv) (snd fv) ew)
                                 (Decode_switch f v ew) (Decode_fields d1))"
        using "1.IH" [OF rf [symmetric] refl refl None] by blast
      moreover from rf None nb have "Decode_fields d = (f, v) # Decode_fields d1"
        by (simp add: Decode_fields.simps [of d])
      ultimately show ?thesis by simp
    qed
  qed
qed

lemma Decode_switch_ID:
  "''id'' \<noteq> f \<Longrightarrow> ID (fst (Decode_switch f v ew)) = ID (fst ew) \<and>
     ResetID (fst (Decode_switch f v ew)) = ResetID (fst ew)"
  by (cases ew) (auto simp: Decode_switch_def)

lemma Decode_switch_Retry:
  "''retry'' \<noteq> f \<Longrightarrow> Retry (fst (Decode_switch f v ew)) = Retry (fst ew)"
  by (cases ew) (auto simp: Decode_switch_def)

lemma Decode_switch_Type:
  "''event'' \<noteq> f \<Longrightarrow> Type (fst (Decode_switch f v ew)) = Type (fst ew)"
  by (cases ew) (auto simp: Decode_switch_def)

lemma Decode_switch_ResetID:
  "ResetID (fst ew) \<Longrightarrow> ResetID (fst (Decode_switch f v ew))"
  by (cases ew) (simp add: Decode_switch_def)

lemma Decode_switch_data:
  "Decode_switch ''data'' v (e, wd) = (e\<lparr>Data := Data e @ (if wd then [LF] else []) @ v\<rparr>, True)"
  by (simp add: Decode_switch_def)

lemma Decode_switch_other:
  "f \<noteq> ''data'' \<Longrightarrow> Data (fst (Decode_switch f v ew)) = Data (fst ew) \<and>
     snd (Decode_switch f v ew) = snd ew"
  by (cases ew) (simp add: Decode_switch_def)

lemma switch_all_ID:
  "''id'' \<notin> fst ` set fs \<Longrightarrow>
     ID (fst (switch_all ew fs)) = ID (fst ew) \<and>
     ResetID (fst (switch_all ew fs)) = ResetID (fst ew)"
  by (induction fs arbitrary: ew) (simp_all add: Decode_switch_ID)

lemma switch_all_Retry:
  "''retry'' \<notin> fst ` set fs \<Longrightarrow> Retry (fst (switch_all ew fs)) = Retry (fst ew)"
  by (induction fs arbitrary: ew) (simp_all add: Decode_switch_Retry)

lemma switch_all_Type:
  "''event'' \<notin> fst ` set fs \<Longrightarrow> Type (fst (switch_all ew fs)) = Type (fst ew)"
  by (induction fs arbitrary: ew) (simp_all add: Decode_switch_Type)

lemma switch_all_ResetID:
  "ResetID (fst ew) \<Longrightarrow> ResetID (fst (switch_all ew fs))"
  by (induction fs arbitrary: ew) (simp_all add: Decode_switch_ResetID)

lemma switch_all_Data:
  "Data (fst (switch_all (e, wd) fs)) =
     Data e @ (if wd \<and> data_values fs \<noteq> [] then [LF] else []) @ join_lines (data_values fs)"
proof (induction fs arbitrary: e wd)
  case Nil
  show ?case by (simp add: data_values_def)
next
  case (Cons fv fs)
  show ?case
  proof (cases "fst fv = ''data''")
    case True
    have dv: "data_values (fv # fs) = snd fv # data_values fs"
      using True by (simp add: data_values_def)
    have "switch_all (e, wd) (fv # fs) =
            switch_all (e\<lparr>Data := Data e @ (if wd then [LF] else []) @ snd fv\<rparr>, True) fs"
      using True by (simp add: Decode_switch_data)
    then show ?thesis
      unfolding dv by (cases "data_values fs") (simp_all add: Cons.IH)
  next
    case False
    have dv: "data_values (fv # fs) = data_values fs"
      using False by (simp add: data_values_def)
    obtain e1 wd1 where sw: "Decode_switch (fst fv) (snd fv) (e, wd) = (e1, wd1)"
      by (cases "Decode_switch (fst fv) (snd fv) (e, wd)")
    with Decode_switch_other [OF False, of "snd fv" "(e, wd)"]
    have "Data e1 = Data e" and "wd1 = wd" by simp_all
    with sw show ?thesis
      unfolding dv by (simp add: Cons.IH)
  qed
qed

text \<open>
  C10. \<open>Decode\<close> sets \<open>Type\<close> to \<open>message\<close> and then changes the event only through
  the fields it reads. Whatever it returns: the \<open>Data\<close> the event had is kept, and the
  values of the new \<open>data\<close> fields, joined by newlines, are appended to it with no
  separator in between; without an \<open>id\<close> field \<open>ID\<close> and \<open>ResetID\<close> are as before,
  without a \<open>retry\<close> field \<open>Retry\<close> is as before, without an \<open>event\<close> field \<open>Type\<close>
  is \<open>message\<close>; \<open>ResetID\<close> is never cleared; and with no field at all only \<open>Type\<close> has
  changed.
\<close>

theorem Decode_reuses_event:
  assumes "Decode d e = (r, d', e')"
  shows "Data e' = Data e @ join_lines (data_values (Decode_fields d)) \<and>
         (''id'' \<notin> fst ` set (Decode_fields d) \<longrightarrow> ID e' = ID e \<and> ResetID e' = ResetID e) \<and>
         (''retry'' \<notin> fst ` set (Decode_fields d) \<longrightarrow> Retry e' = Retry e) \<and>
         (''event'' \<notin> fst ` set (Decode_fields d) \<longrightarrow> Type e' = ''message'') \<and>
         (ResetID e \<longrightarrow> ResetID e') \<and>
         (Decode_fields d = [] \<longrightarrow> e' = e\<lparr>Type := ''message''\<rparr>)"
proof -
  from assms have e': "e' = fst (switch_all (e\<lparr>Type := ''message''\<rparr>, False) (Decode_fields d))"
    unfolding Decode_def by (rule Decode_loop_fields)
  have "Data e' = Data e @ join_lines (data_values (Decode_fields d))"
    unfolding e' by (simp add: switch_all_Data)
  moreover have "''id'' \<notin> fst ` set (Decode_fields d) \<longrightarrow> ID e' = ID e \<and> ResetID e' = ResetID e"
    unfolding e' by (simp add: switch_all_ID)
  moreover have "''retry'' \<notin> fst ` set (Decode_fields d) \<longrightarrow> Retry e' = Retry e"
    unfolding e' by (simp add: switch_all_Retry)
  moreover have "''event'' \<notin> fst ` set (Decode_fields d) \<longrightarrow> Type e' = ''message''"
    unfolding e' by (simp add: switch_all_Type)
  moreover have "ResetID e \<longrightarrow> ResetID e'"
    unfolding e' by (simp add: switch_all_ResetID)
  moreover have "Decode_fields d = [] \<longrightarrow> e' = e\<lparr>Type := ''message''\<rparr>"
    unfolding e' by simp
  ultimately show ?thesis by blast
qed

theorem Decode_reuses_event_witness:
  "Decode (NewDecoder (stream_of (''data: b'' @ [LF, LF])))
      \<lparr>Type = ''t'', ID = ''7'', Retry = ''10'', Data = ''a'', ResetID = True\<rparr> =
     (None, \<lparr>dec_r = stream_of [], checkedBOM = True\<rparr>,
      \<lparr>Type = ''message'', ID = ''7'', Retry = ''10'', Data = ''ab'', ResetID = True\<rparr>) \<and>
   Decode_fields (NewDecoder (stream_of (''data: b'' @ [LF, LF]))) = [(''data'', ''b'')]"
proof -
  have h: "Decode (NewDecoder (stream_of (''data: b'' @ [LF, LF])))
      \<lparr>Type = ''t'', ID = ''7'', Retry = ''10'', Data = ''a'', ResetID = True\<rparr> =
     (None, \<lparr>dec_r = stream_of [], checkedBOM = True\<rparr>,
      \<lparr>Type = ''message'', ID = ''7'', Retry = ''10'', Data = ''ab'', ResetID = True\<rparr>)"
    by (simp add: codec_eval)
  have f: "Decode_fields (NewDecoder (stream_of (''data: b'' @ [LF, LF]))) = [(''data'', ''b'')]"
    by (simp add: codec_eval Decode_fields.simps)
  from Decode_reuses_event [OF h] h f show ?thesis by simp
qed

section \<open>The outcome of a connection attempt\<close>

lemma connect_exit:
  "connect pm es w = Returns (es', w') \<Longrightarrow>
     es_err es' \<noteq> None \<or>
     (\<exists>resp. Inr resp \<in> set (script w) \<and> classify pm (Inr resp) = Success \<and>
        es_r es' = Some (RespBody resp) \<and> es_dec es' = Some (NewDecoder (RespBody resp)))"
proof (induction "script w" arbitrary: es w)
  case Nil
  then show ?case
    by (cases "es_err es") (auto simp: connect_Nil connect_err)
next
  case (Cons out rest)
  show ?case
  proof (cases "es_err es")
    case (Some e)
    with Cons.prems show ?thesis by (simp add: connect_err)
  next
    case None
    define Q where "Q \<longleftrightarrow> es_err es' \<noteq> None \<or>
     (\<exists>resp. Inr resp \<in> set (script w) \<and> classify pm (Inr resp) = Success \<and>
        es_r es' = Some (RespBody resp) \<and> es_dec es' = Some (NewDecoder (RespBody resp)))"
    have sw: "script w = out # rest" using Cons.hyps(2) by simp
    have again: Q
      if "connect pm (with_header es) w2 = Returns (es', w')" "script w2 = rest" for w2
      using Cons.hyps(1) [OF that(2) [symmetric] that(1)] sw that(2) unfolding Q_def by auto
    have s1: "script (after_request es w) = rest"
      using sw by (simp add: after_request_def)
    have s2: "script (closing b (after_request es w)) = rest" for b
      using s1 by (simp add: closing_def)
    from Cons.prems have Q
      unfolding connect_step [OF None sw]
      by (auto split: sum.splits if_splits intro: again s1 s2)
         (auto simp: Q_def sw classify_def)
    then show ?thesis unfolding Q_def .
  qed
qed

text \<open>
  C2. One turn of the loop of \<open>connect\<close>, for a client without terminal error, follows
  the table. A fatal outcome: \<open>connect\<close> returns with a terminal error recorded (the
  error of the transport itself when that was a cancellation) and the rest of the script
  untouched, so nothing is tried again. A recoverable outcome: the loop goes on with the
  next result of the transport, no terminal error recorded, the body of a response
  closed last. A success: \<open>connect\<close> returns with the body of the response as the
  client's reader and a new decoder on it. And whenever \<open>connect\<close> returns, a terminal
  error is recorded or the client is bound to a response that the table calls a success.
\<close>

theorem connect_classifies:
  "(es_err es = None \<and> script w = out # rest \<longrightarrow>
      (case classify pm out of
         Fatal \<Rightarrow>
           (\<exists>e w'. connect pm es w = Returns ((with_header es)\<lparr>es_err := Some e\<rparr>, w') \<and>
              script w' = rest \<and> (\<forall>err. out = Inl err \<longrightarrow> e = err))
       | Recoverable \<Rightarrow>
           (\<exists>w'. connect pm es w = connect pm (with_header es) w' \<and>
              es_err (with_header es) = None \<and> script w' = rest \<and>
              (\<forall>resp. out = Inr resp \<longrightarrow> last (trace w') = Closed (RespBody resp)))
       | Success \<Rightarrow>
           (\<exists>resp. out = Inr resp \<and>
              connect pm es w =
                Returns ((with_header es)\<lparr>es_r := Some (RespBody resp),
                           es_dec := Some (NewDecoder (RespBody resp))\<rparr>,
                         after_request es w) \<and>
              es_err (with_header es) = None \<and> script (after_request es w) = rest))) \<and>
   (connect pm es w = Returns (es', w') \<longrightarrow>
      es_err es' \<noteq> None \<or>
      (\<exists>resp. Inr resp \<in> set (script w) \<and> classify pm (Inr resp) = Success \<and>
         es_r es' = Some (RespBody resp) \<and> es_dec es' = Some (NewDecoder (RespBody resp))))"
proof (intro conjI impI)
  assume a: "es_err es = None \<and> script w = out # rest"
  then have None: "es_err es = None" and sw: "script w = out # rest" by simp_all
  have s1: "script (after_request es w) = rest"
    using sw by (simp add: after_request_def)
  have s2: "script (closing b (after_request es w)) = rest" for b
    using s1 by (simp add: closing_def)
  have t2: "last (trace (closing b w2)) = Closed b" for b w2
    by (simp add: closing_def)
  have fatal: "\<exists>e w'. connect pm es w = Returns ((with_header es)\<lparr>es_err := Some e\<rparr>, w') \<and>
              script w' = rest \<and> (\<forall>err. out = Inl err \<longrightarrow> e = err)"
    if "connect pm es w = Returns ((with_header es)\<lparr>es_err := Some e\<rparr>, w')"
       "script w' = rest" "\<forall>err. out = Inl err \<longrightarrow> e = err" for e w'
    using that by blast
  show "case classify pm out of
         Fatal \<Rightarrow>
           (\<exists>e w'. connect pm es w = Returns ((with_header es)\<lparr>es_err := Some e\<rparr>, w') \<and>
              script w' = rest \<and> (\<forall>err. out = Inl err \<longrightarrow> e = err))
       | Recoverable \<Rightarrow>
           (\<exists>w'. connect pm es w = connect pm (with_header es) w' \<and>
              es_err (with_header es) = None \<and> script w' = rest \<and>
              (\<forall>resp. out = Inr resp \<longrightarrow> last (trace w') = Closed (RespBody resp)))
       | Success \<Rightarrow>
           (\<exists>resp. out = Inr resp \<and>
              connect pm es w =
                Returns ((with_header es)\<lparr>es_r := Some (RespBody resp),
                           es_dec := Some (NewDecoder (RespBody resp))\<rparr>,
                         after_request es w) \<and>
              es_err (with_header es) = None \<and> script (after_request es w) = rest)"
  proof (cases out)
    case (Inl err)
    show ?thesis
    proof (cases "errors_Is err ContextCanceled")
      case True
      with Inl have "connect pm es w =
          Returns ((with_header es)\<lparr>es_err := Some err\<rparr>, after_request es w)"
        by (simp add: connect_step [OF None sw])
      from fatal [OF this s1] Inl True show ?thesis
        by (simp add: classify_def)
    next
      case False
      with Inl have "connect pm es w = connect pm (with_header es) (after_request es w)"
        by (simp add: connect_step [OF None sw])
      with Inl False None s1 show ?thesis
        by (auto simp: classify_def)
    qed
  next
    case (Inr resp)
    consider (five) "StatusCode resp \<ge> 500"
      | (nocontent) "StatusCode resp < 500" "StatusCode resp = 204"
      | (ok) "StatusCode resp = 200" "pm (ContentType resp) = ''text/event-stream''"
      | (wrong) "StatusCode resp = 200" "pm (ContentType resp) \<noteq> ''text/event-stream''"
      | (other) "StatusCode resp < 500" "StatusCode resp \<noteq> 204" "StatusCode resp \<noteq> 200"
      by fastforce
    then show ?thesis
    proof cases
      case five
      with Inr have "connect pm es w =
          connect pm (with_header es) (closing (RespBody resp) (after_request es w))"
        by (simp add: connect_step [OF None sw])
      with Inr five None s2 t2 show ?thesis
        by (auto simp: classify_def)
    next
      case nocontent
      with Inr have "connect pm es w =
          Returns ((with_header es)\<lparr>es_err := Some ErrClosed\<rparr>,
                   closing (RespBody resp) (after_request es w))"
        by (simp add: connect_step [OF None sw])
      from fatal [OF this s2] Inr nocontent show ?thesis
        by (simp add: classify_def)
    next
      case ok
      with Inr None show ?thesis
        by (simp add: classify_def connect_step [OF None sw] s1)
    next
      case wrong
      with Inr have "connect pm es w =
          Returns ((with_header es)\<lparr>es_err := Some (Errorf
                      (''invalid response Content-Type ('' @ ContentType resp @ '')''))\<rparr>,
                   closing (RespBody resp) (after_request es w))"
        by (simp add: connect_step [OF None sw])
      from fatal [OF this s2] Inr wrong show ?thesis
        by (simp add: classify_def)
    next
      case other
      with Inr have "connect pm es w =
          Returns ((with_header es)\<lparr>es_err := Some (Errorf
                      (''endpoint returned unrecoverable status '' @ Status resp))\<rparr>,
                   after_request es w)"
        by (simp add: connect_step [OF None sw])
      from fatal [OF this s1] Inr other show ?thesis
        by (simp add: classify_def)
    qed
  qed
next
  assume "connect pm es w = Returns (es', w')"
  then show "es_err es' \<noteq> None \<or>
      (\<exists>resp. Inr resp \<in> set (script w) \<and> classify pm (Inr resp) = Success \<and>
         es_r es' = Some (RespBody resp) \<and> es_dec es' = Some (NewDecoder (RespBody resp)))"
    by (rule connect_exit)
qed

theorem connect_classifies_witness:
  "es_err sample_client = None \<and>
   script failing_first =
     status_only 500 ''500 Internal Server Error'' # [event_stream (''data: x'' @ [LF, LF])] \<and>
   classify sample_pm (status_only 500 ''500 Internal Server Error'') = Recoverable \<and>
   (\<exists>w'. connect sample_pm sample_client failing_first =
           connect sample_pm (with_header sample_client) w' \<and>
         script w' = [event_stream (''data: x'' @ [LF, LF])] \<and>
         last (trace w') = Closed (stream_of [])) \<and>
   connect sample_pm sample_client failing_first =
     Returns ((with_header sample_client)
                \<lparr>es_r := Some (stream_of (''data: x'' @ [LF, LF])),
                 es_dec := Some (NewDecoder (stream_of (''data: x'' @ [LF, LF])))\<rparr>,
              \<lparr>script = [],
               trace = [Sent (es_request (with_header sample_client)), Closed (stream_of []),
                        Sent (es_request (with_header sample_client))]\<rparr>) \<and>
   classify sample_pm (event_stream (''data: x'' @ [LF, LF])) = Success"
proof -
  have h1: "es_err sample_client = None \<and>
     script failing_first =
       status_only 500 ''500 Internal Server Error'' # [event_stream (''data: x'' @ [LF, LF])]"
    by (simp add: sample_client_def NewConfig_def failing_first_def)
  have h2: "connect sample_pm sample_client failing_first =
     Returns ((with_header sample_client)
                \<lparr>es_r := Some (stream_of (''data: x'' @ [LF, LF])),
                 es_dec := Some (NewDecoder (stream_of (''data: x'' @ [LF, LF])))\<rparr>,
              \<lparr>script = [],
               trace = [Sent (es_request (with_header sample_client)), Closed (stream_of []),
                        Sent (es_request (with_header sample_client))]\<rparr>)"
    by (simp add: client_eval failing_first_def with_header_def)
  have c1: "classify sample_pm (status_only 500 ''500 Internal Server Error'') = Recoverable"
    by (simp add: classify_def status_only_def)
  have c2: "classify sample_pm (event_stream (''data: x'' @ [LF, LF])) = Success"
    by (simp add: classify_def event_stream_def sample_pm_def)
  from connect_classifies [of sample_client failing_first
      "status_only 500 ''500 Internal Server Error''" "[event_stream (''data: x'' @ [LF, LF])]"
      sample_pm] h1 h2 c1 c2
  show ?thesis
    by (simp add: status_only_def)
qed

section \<open>Waiting before a new attempt\<close>

text \<open>
  C7. A new client whose first request is answered with status 500 makes its second
  request at once: between the two requests it closes the body of the 500 response and
  does not wait. (\<open>connect\<close> waits only when \<open>es.r\<close> is set, and only a successful
  attempt sets it.)
\<close>

theorem retry_without_wait:
  "es_r sample_client = None \<and>
   (case connect sample_pm sample_client failing_first of
      Returns (es', w') \<Rightarrow> trace w'
    | _ \<Rightarrow> []) =
   [Sent \<lparr>hdr_Accept = Some ''text/event-stream'', hdr_Cache_Control = Some ''no-cache'',
          hdr_Last_Event_Id = Some []\<rparr>,
    Closed (stream_of []),
    Sent \<lparr>hdr_Accept = Some ''text/event-stream'', hdr_Cache_Control = Some ''no-cache'',
          hdr_Last_Event_Id = Some []\<rparr>]"
  by (simp add: client_eval failing_first_def)

section \<open>The sticky Last-Event-Id\<close>

text \<open>
  C4. When \<open>Read\<close> returns, the sticky ID of the client is the ID of the returned event
  if \<open>Read\<close> delivered an event (one with data) that has an ID or has \<open>ResetID\<close> set, and
  is unchanged otherwise; \<open>connect\<close> and \<open>Close\<close> never change it. Every request made
  during the call carries the sticky ID of the client, empty or not, as its
  Last-Event-Id, and \<open>connect\<close> makes one such request for each result it takes from
  the transport.
\<close>

theorem lastEventID_sticky:
  "(Read pm es w = Returns ((ev, eo), es', w') \<longrightarrow>
      es_lastEventID es' =
        (if eo = None \<and> (length (ID ev) > 0 \<or> ResetID ev) then ID ev else es_lastEventID es) \<and>
      (eo = None \<longrightarrow> length (Data ev) > 0) \<and>
      (\<exists>new. trace w' = trace w @ new \<and> resumes_from (es_lastEventID es) new)) \<and>
   (connect pm es w = Returns (es1, w1) \<longrightarrow>
      es_lastEventID es1 = es_lastEventID es \<and>
      (\<exists>new. trace w1 = trace w @ new \<and> resumes_from (es_lastEventID es) new \<and>
         length (filter is_Sent new) + length (script w1) = length (script w))) \<and>
   es_lastEventID (fst (Close es w)) = es_lastEventID es"
proof (intro conjI impI)
  assume "Read pm es w = Returns ((ev, eo), es', w')"
  then have post: "Read_post es w ((ev, eo), es', w')" by (rule Read_result)
  then show "es_lastEventID es' =
        (if eo = None \<and> (length (ID ev) > 0 \<or> ResetID ev) then ID ev else es_lastEventID es)"
    by (cases eo) (simp_all add: Read_post_def)
  from post show "0 < length (Data ev)" if "eo = None"
    using that by (simp add: Read_post_def)
  from post show "\<exists>new. trace w' = trace w @ new \<and> resumes_from (es_lastEventID es) new"
    by (simp add: Read_post_def)
next
  assume con: "connect pm es w = Returns (es1, w1)"
  from connect_frame [OF con] show "es_lastEventID es1 = es_lastEventID es" by simp
  from connect_frame [OF con]
  show "\<exists>new. trace w1 = trace w @ new \<and> resumes_from (es_lastEventID es) new \<and>
         length (filter is_Sent new) + length (script w1) = length (script w)"
    by simp
next
  show "es_lastEventID (fst (Close es w)) = es_lastEventID es"
    by (simp add: Close_def)
qed

theorem lastEventID_sticky_witness:
  "Read sample_pm sample_client two_streams =
     Returns ((\<lparr>Type = ''message'', ID = ''7'', Retry = [], Data = ''a'', ResetID = False\<rparr>, None),
       (with_header sample_client)
         \<lparr>es_r := Some (stream_of (''id: 7'' @ [LF] @ ''data: a'' @ [LF, LF])),
          es_dec := Some \<lparr>dec_r = stream_of [], checkedBOM = True\<rparr>,
          es_lastEventID := ''7''\<rparr>,
       \<lparr>script = [event_stream (''data: b'' @ [LF, LF])],
        trace = [Sent (es_request (with_header sample_client))]\<rparr>) \<and>
   es_lastEventID sample_client = [] \<and>
   resumes_from [] [Sent (es_request (with_header sample_client))]"
proof -
  have h: "Read sample_pm sample_client two_streams =
     Returns ((\<lparr>Type = ''message'', ID = ''7'', Retry = [], Data = ''a'', ResetID = False\<rparr>, None),
       (with_header sample_client)
         \<lparr>es_r := Some (stream_of (''id: 7'' @ [LF] @ ''data: a'' @ [LF, LF])),
          es_dec := Some \<lparr>dec_r = stream_of [], checkedBOM = True\<rparr>,
          es_lastEventID := ''7''\<rparr>,
       \<lparr>script = [event_stream (''data: b'' @ [LF, LF])],
        trace = [Sent (es_request (with_header sample_client))]\<rparr>)"
    by (simp add: client_eval codec_eval two_streams_def with_header_def)
  from lastEventID_sticky [THEN conjunct1, rule_format, OF h] h show ?thesis
    by (simp add: two_streams_def sample_client_def NewConfig_def)
qed

section \<open>Events without data\<close>

text \<open>
  C5. \<open>Decode\<close> of the block \<open>event: type\<close>, \<open>data\<close>, empty line succeeds with the type
  \<open>type\<close> and no data. When the decoder of the client yields an event without data, the
  loop of \<open>Read\<close> goes on from the decoder after that event and nothing else changes;
  and an event that \<open>Read\<close> returns without error has data.
\<close>

theorem empty_data_not_delivered:
  "fst (Decode (NewDecoder (stream_of (''event: type'' @ [LF] @ ''data'' @ [LF, LF]))) zero_Event)
     = None \<and>
   snd (snd (Decode (NewDecoder (stream_of (''event: type'' @ [LF] @ ''data'' @ [LF, LF])))
              zero_Event))
     = \<lparr>Type = ''type'', ID = [], Retry = [], Data = [], ResetID = False\<rparr> \<and>
   (es_err es = None \<and> es_dec es = Some d \<and> Decode d zero_Event = (None, d', e) \<and>
      length (Data e) = 0 \<longrightarrow>
      Read_loop pm es w = Read_loop pm (es\<lparr>es_dec := Some d'\<rparr>) w) \<and>
   (Read pm es w = Returns ((ev, None), es', w') \<longrightarrow> length (Data ev) > 0)"
proof (intro conjI impI)
  show "fst (Decode (NewDecoder (stream_of (''event: type'' @ [LF] @ ''data'' @ [LF, LF])))
               zero_Event) = None"
    by (simp add: codec_eval)
  show "snd (snd (Decode (NewDecoder (stream_of (''event: type'' @ [LF] @ ''data'' @ [LF, LF])))
              zero_Event))
     = \<lparr>Type = ''type'', ID = [], Retry = [], Data = [], ResetID = False\<rparr>"
    by (simp add: codec_eval)
next
  assume "es_err es = None \<and> es_dec es = Some d \<and> Decode d zero_Event = (None, d', e) \<and>
      length (Data e) = 0"
  then show "Read_loop pm es w = Read_loop pm (es\<lparr>es_dec := Some d'\<rparr>) w"
    by (simp add: Read_loop_discard)
next
  assume "Read pm es w = Returns ((ev, None), es', w')"
  from Read_result [OF this] show "0 < length (Data ev)"
    by (simp add: Read_post_def)
qed

theorem empty_data_not_delivered_witness:
  "Decode (NewDecoder blank_first) zero_Event =
     (None, \<lparr>dec_r = stream_of (''data: y'' @ [LF, LF]), checkedBOM = True\<rparr>,
      \<lparr>Type = ''type'', ID = [], Retry = [], Data = [], ResetID = False\<rparr>) \<and>
   Read_loop sample_pm
     (sample_client\<lparr>es_r := Some blank_first, es_dec := Some (NewDecoder blank_first)\<rparr>)
     \<lparr>script = [], trace = []\<rparr> =
   Read_loop sample_pm
     (sample_client\<lparr>es_r := Some blank_first,
        es_dec := Some \<lparr>dec_r = stream_of (''data: y'' @ [LF, LF]), checkedBOM = True\<rparr>\<rparr>)
     \<lparr>script = [], trace = []\<rparr> \<and>
   Read sample_pm
     (sample_client\<lparr>es_r := Some blank_first, es_dec := Some (NewDecoder blank_first)\<rparr>)
     \<lparr>script = [], trace = []\<rparr> =
   Returns ((\<lparr>Type = ''message'', ID = [], Retry = [], Data = ''y'', ResetID = False\<rparr>, None),
     sample_client\<lparr>es_r := Some blank_first,
        es_dec := Some \<lparr>dec_r = stream_of [], checkedBOM = True\<rparr>\<rparr>,
     \<lparr>script = [], trace = []\<rparr>)"
proof -
  let ?es = "sample_client\<lparr>es_r := Some blank_first, es_dec := Some (NewDecoder blank_first)\<rparr>"
  have h1: "Decode (NewDecoder blank_first) zero_Event =
     (None, \<lparr>dec_r = stream_of (''data: y'' @ [LF, LF]), checkedBOM = True\<rparr>,
      \<lparr>Type = ''type'', ID = [], Retry = [], Data = [], ResetID = False\<rparr>)"
    by (simp add: codec_eval blank_first_def)
  have h2: "es_err ?es = None \<and> es_dec ?es = Some (NewDecoder blank_first) \<and>
      Decode (NewDecoder blank_first) zero_Event =
        (None, \<lparr>dec_r = stream_of (''data: y'' @ [LF, LF]), checkedBOM = True\<rparr>,
         \<lparr>Type = ''type'', ID = [], Retry = [], Data = [], ResetID = False\<rparr>) \<and>
      length (Data \<lparr>Type = ''type'', ID = [], Retry = [], Data = [], ResetID = False\<rparr>) = 0"
    using h1 by (simp add: sample_client_def NewConfig_def)
  have h3: "Read sample_pm ?es \<lparr>script = [], trace = []\<rparr> =
     Returns ((\<lparr>Type = ''message'', ID = [], Retry = [], Data = ''y'', ResetID = False\<rparr>, None),
       sample_client\<lparr>es_r := Some blank_first,
          es_dec := Some \<lparr>dec_r = stream_of [], checkedBOM = True\<rparr>\<rparr>,
       \<lparr>script = [], trace = []\<rparr>)"
    by (simp add: client_eval codec_eval blank_first_def)
  from empty_data_not_delivered [THEN conjunct2, THEN conjunct2, THEN conjunct1, rule_format, OF h2]
       h1 h3
  show ?thesis by simp
qed

section \<open>The retry interval\<close>

lemma digits_value_nonneg:
  "0 \<le> n \<Longrightarrow> list_all is_digit s \<Longrightarrow> 0 \<le> digits_value n s"
proof (induction s arbitrary: n)
  case Nil
  then show ?case by simp
next
  case (Cons c s)
  from Cons.prems have "(48::int) \<le> of_char c"
    by (simp add: is_digit_def in_range_def flip: of_nat_of_char [where ?'a = int])
  with Cons.prems have "0 \<le> n * 10 + (of_char c - 48)" by simp
  with Cons show ?case by simp
qed

lemma is_digit_not_sign: "is_digit c \<Longrightarrow> c \<noteq> CHR ''-'' \<and> c \<noteq> CHR ''+''"
  by (auto simp: is_digit_def in_range_def)

lemma Atoi_digits:
  assumes "s \<noteq> []" "list_all is_digit s" "digits_value 0 s < 2 ^ 63"
  shows "Atoi s = Some (digits_value 0 s)"
proof -
  from assms(1,2) have "is_digit (hd s)" by (cases s) simp_all
  then have "hd s \<noteq> CHR ''-''" "hd s \<noteq> CHR ''+''"
    by (simp_all add: is_digit_not_sign)
  moreover have "0 \<le> digits_value 0 s"
    using assms(2) by (simp add: digits_value_nonneg)
  then have "- (2 ^ 63) \<le> digits_value 0 s"
    by (rule order_trans [rotated]) simp
  ultimately show ?thesis
    using assms by (simp add: Atoi_def Let_def)
qed

lemma Atoi_malformed:
  assumes "c \<in> set s" "\<not> is_digit c" "c \<noteq> CHR ''-''" "c \<noteq> CHR ''+''"
  shows "Atoi s = None"
proof -
  from assms(1) have ne: "s \<noteq> []" by auto
  have "c \<in> set (if s \<noteq> [] \<and> (hd s = CHR ''-'' \<or> hd s = CHR ''+'') then tl s else s)"
    using assms(1,3,4) by (cases s) auto
  with assms(2) have "\<not> list_all is_digit
      (if s \<noteq> [] \<and> (hd s = CHR ''-'' \<or> hd s = CHR ''+'') then tl s else s)"
    by (auto simp: list_all_iff)
  then show ?thesis by (simp add: Atoi_def Let_def)
qed

lemma Duration_mul_Millisecond:
  assumes "0 \<le> n" "n \<le> 9223372036854"
  shows "Duration_mul n Millisecond = n * Millisecond"
proof -
  have "- (2 ^ 63) \<le> n * 1000000" "n * 1000000 < 2 ^ 63"
    using assms by simp_all
  then show ?thesis
    unfolding Duration_mul_def Millisecond_def
    by (simp add: signed_take_bit_int_eq_self)
qed

text \<open>
  What \<open>Read\<close> does right with the \<open>Retry\<close> of an event it delivers: a value that
  \<open>strconv.Atoi\<close> reads as a number from 0 to 9223372036854 (digits, with or without a
  \<open>+\<close> before them) becomes the interval, as that many milliseconds; a value that
  \<open>strconv.Atoi\<close> rejects, as it does whenever a character is neither a digit nor a sign,
  leaves the interval as it was.
\<close>

lemma retry_interval_update:
  "Read pm es w = Returns ((ev, None), es', w') \<and> length (Retry ev) > 0 \<longrightarrow>
     (\<forall>n. Atoi (Retry ev) = Some n \<and> 0 \<le> n \<and> n \<le> 9223372036854 \<longrightarrow>
        es_retry es' = n * Millisecond) \<and>
     (list_all is_digit (Retry ev) \<and> digits_value 0 (Retry ev) \<le> 9223372036854 \<longrightarrow>
        es_retry es' = digits_value 0 (Retry ev) * Millisecond) \<and>
     (Atoi (Retry ev) = None \<longrightarrow> es_retry es' = es_retry es) \<and>
     ((\<exists>c \<in> set (Retry ev). \<not> is_digit c \<and> c \<noteq> CHR ''-'' \<and> c \<noteq> CHR ''+'') \<longrightarrow>
        es_retry es' = es_retry es)"
proof (intro impI)
  assume a: "Read pm es w = Returns ((ev, None), es', w') \<and> length (Retry ev) > 0"
  then have "Read_post es w ((ev, None), es', w')" by (auto intro: Read_result)
  with a have r: "es_retry es' =
      (case Atoi (Retry ev) of Some retry \<Rightarrow> Duration_mul retry Millisecond
       | None \<Rightarrow> es_retry es)"
    by (simp add: Read_post_def)
  have 0: "es_retry es' = n * Millisecond"
    if "Atoi (Retry ev) = Some n \<and> 0 \<le> n \<and> n \<le> 9223372036854" for n
    using r that by (simp add: Duration_mul_Millisecond)
  have 1: "es_retry es' = digits_value 0 (Retry ev) * Millisecond"
    if d: "list_all is_digit (Retry ev) \<and> digits_value 0 (Retry ev) \<le> 9223372036854"
  proof -
    from a d have "Atoi (Retry ev) = Some (digits_value 0 (Retry ev))"
      by (intro Atoi_digits) auto
    moreover from d have "0 \<le> digits_value 0 (Retry ev)"
      by (simp add: digits_value_nonneg)
    ultimately show ?thesis
      using d by (intro 0) simp
  qed
  have 2: "es_retry es' = es_retry es" if "Atoi (Retry ev) = None"
    using r that by simp
  have 3: "es_retry es' = es_retry es"
    if "\<exists>c \<in> set (Retry ev). \<not> is_digit c \<and> c \<noteq> CHR ''-'' \<and> c \<noteq> CHR ''+''"
    using that 2 by (auto dest: Atoi_malformed)
  from 0 1 2 3 show "(\<forall>n. Atoi (Retry ev) = Some n \<and> 0 \<le> n \<and> n \<le> 9223372036854 \<longrightarrow>
        es_retry es' = n * Millisecond) \<and>
     (list_all is_digit (Retry ev) \<and> digits_value 0 (Retry ev) \<le> 9223372036854 \<longrightarrow>
        es_retry es' = digits_value 0 (Retry ev) * Millisecond) \<and>
     (Atoi (Retry ev) = None \<longrightarrow> es_retry es' = es_retry es) \<and>
     ((\<exists>c \<in> set (Retry ev). \<not> is_digit c \<and> c \<noteq> CHR ''-'' \<and> c \<noteq> CHR ''+'') \<longrightarrow>
        es_retry es' = es_retry es)"
    by blast
qed

lemma retry_ten_seconds:
  "Read sample_pm sample_client ten_seconds =
     Returns ((\<lparr>Type = ''message'', ID = [], Retry = ''10000'', Data = ''foo'', ResetID = False\<rparr>,
               None),
       (with_header sample_client)
         \<lparr>es_r := Some (stream_of (''retry: 10000'' @ [LF] @ ''data: foo'' @ [LF, LF])),
          es_dec := Some \<lparr>dec_r = stream_of [], checkedBOM = True\<rparr>,
          es_retry := 10 * Second\<rparr>,
       \<lparr>script = [], trace = [Sent (es_request (with_header sample_client))]\<rparr>)"
  by (simp add: client_eval codec_eval ten_seconds_def with_header_def)

text \<open>
  C6. \<open>Read\<close> is to take over the \<open>Retry\<close> of an event only when it is a non-negative
  integer. It does not: an event with \<open>retry: -5\<close> is delivered, and the interval of the
  client, one second before, is minus five milliseconds after. (\<open>Read\<close> asks only whether
  \<open>strconv.Atoi\<close> fails, while \<open>NewConfig\<close> replaces an interval that is not positive by
  one second.)
\<close>

theorem retry_negative_sets_interval:
  "Read sample_pm sample_client negative_retry =
     Returns ((\<lparr>Type = ''message'', ID = [], Retry = ''-5'', Data = ''x'', ResetID = False\<rparr>, None),
       (with_header sample_client)
         \<lparr>es_r := Some (stream_of (''retry: -5'' @ [LF] @ ''data: x'' @ [LF, LF])),
          es_dec := Some \<lparr>dec_r = stream_of [], checkedBOM = True\<rparr>,
          es_retry := - 5000000\<rparr>,
       \<lparr>script = [], trace = [Sent (es_request (with_header sample_client))]\<rparr>) \<and>
   es_retry sample_client = 1000000000"
  by (simp add: client_eval codec_eval negative_retry_def with_header_def)

section \<open>Encoding and decoding again\<close>

lemma takeWhile_line: "LF \<notin> set l \<Longrightarrow> takeWhile (\<lambda>c. c \<noteq> LF) (l @ LF # rest) = l"
  by (induction l) auto

lemma strip_CR_append:
  "ys \<noteq> [] \<Longrightarrow> strip_CR (xs @ ys) = xs @ strip_CR ys"
  by (simp add: strip_CR_def butlast_append)

lemma ReadLine_short:
  assumes "LF \<notin> set l" "length l < bufSize"
  shows "ReadLine (dec_at (l @ LF # rest) fe b) = (Inr (strip_CR l, False), dec_at rest fe b)"
  using assms
  by (simp add: ReadLine_def Let_def remaining_def dec_at_def takeWhile_line advance_def
        strip_CR_def)

lemma ReadLine_long:
  assumes "LF \<notin> set l" "bufSize \<le> length l"
  shows "ReadLine (dec_at (l @ LF # rest) fe b) =
     (if last (take bufSize l) = CR
      then (Inr (take (bufSize - 1) l, True), dec_at (drop (bufSize - 1) l @ LF # rest) fe b)
      else (Inr (take bufSize l, True), dec_at (drop bufSize l @ LF # rest) fe b))"
  using assms
  by (simp add: ReadLine_def Let_def remaining_def dec_at_def takeWhile_line advance_def)

lemma ReadField_line_whole:
  "LF \<notin> set l \<Longrightarrow>
   ReadField_line (dec_at (l @ LF # rest) fe b) buf = (Inr (buf @ strip_CR l), dec_at rest fe b)"
proof (induction "length l" arbitrary: l buf rule: less_induct)
  case less
  show ?case
  proof (cases "length l < bufSize")
    case True
    with less.prems show ?thesis
      by (simp add: ReadField_line.simps [of "dec_at (l @ LF # rest) fe b"] ReadLine_short)
  next
    case False
    then have long: "bufSize \<le> length l" by simp
    have pos: "0 < bufSize - 1" "0 < bufSize" by (simp_all add: bufSize_def)
    show ?thesis
    proof (cases "last (take bufSize l) = CR")
      case True
      let ?l' = "drop (bufSize - 1) l"
      have ne: "?l' \<noteq> []" using long pos by simp
      have "length ?l' < length l" using long pos by simp
      moreover have "LF \<notin> set ?l'" using less.prems by (auto dest: in_set_dropD)
      ultimately have ih: "ReadField_line (dec_at (?l' @ LF # rest) fe b) (buf @ take (bufSize - 1) l)
          = (Inr ((buf @ take (bufSize - 1) l) @ strip_CR ?l'), dec_at rest fe b)"
        by (rule less.hyps)
      have "strip_CR (take (bufSize - 1) l @ ?l') = take (bufSize - 1) l @ strip_CR ?l'"
        using ne by (rule strip_CR_append)
      then have "take (bufSize - 1) l @ strip_CR ?l' = strip_CR l"
        by (simp only: append_take_drop_id)
      with ih True less.prems long show ?thesis
        by (simp add: ReadField_line.simps [of "dec_at (l @ LF # rest) fe b"] ReadLine_long)
    next
      case False
      let ?l' = "drop bufSize l"
      have "length ?l' < length l" using long pos by simp
      moreover have "LF \<notin> set ?l'" using less.prems by (auto dest: in_set_dropD)
      ultimately have ih: "ReadField_line (dec_at (?l' @ LF # rest) fe b) (buf @ take bufSize l)
          = (Inr ((buf @ take bufSize l) @ strip_CR ?l'), dec_at rest fe b)"
        by (rule less.hyps)
      have "take bufSize l @ strip_CR ?l' = strip_CR l"
      proof (cases "?l' = []")
        case True
        then have "take bufSize l = l" by simp
        with False True show ?thesis by (simp add: strip_CR_def)
      next
        case ne: False
        then have "strip_CR (take bufSize l @ ?l') = take bufSize l @ strip_CR ?l'"
          by (rule strip_CR_append)
        then show ?thesis by (simp only: append_take_drop_id)
      qed
      with ih False less.prems long show ?thesis
        by (simp add: ReadField_line.simps [of "dec_at (l @ LF # rest) fe b"] ReadLine_long)
    qed
  qed
qed

lemma checkBOM_ascii:
  "s \<noteq> [] \<Longrightarrow> hd s \<noteq> CHR 0xEF \<Longrightarrow> checkBOM (dec_at s fe b) = dec_at s fe True"
  by (cases s) (simp_all add: checkBOM_def remaining_def dec_at_def BOM_def)

lemma ReadField_start:
  assumes "b \<or> (s \<noteq> [] \<and> hd s \<noteq> CHR 0xEF)"
  shows "(if \<not> checkedBOM (dec_at s fe b) then checkBOM (dec_at s fe b) else dec_at s fe b)
         = dec_at s fe True"
proof (cases b)
  case True
  then show ?thesis by (simp add: dec_at_def)
next
  case False
  with assms have "checkBOM (dec_at s fe b) = dec_at s fe True"
    by (simp add: checkBOM_ascii)
  with False show ?thesis by (simp add: dec_at_def)
qed

lemma bytes_Cut_found:
  "sep \<notin> set f \<Longrightarrow> bytes_Cut (f @ sep # v) sep = (f, v, True)"
proof -
  assume "sep \<notin> set f"
  then have "takeWhile (\<lambda>c. c \<noteq> sep) (f @ sep # v) = f"
    by (induction f) auto
  then show ?thesis by (simp add: bytes_Cut_def Let_def)
qed

lemma bytes_Cut_missing:
  "sep \<notin> set f \<Longrightarrow> bytes_Cut f sep = (f, [], False)"
proof -
  assume "sep \<notin> set f"
  then have tw: "takeWhile (\<lambda>c. c \<noteq> sep) f = f"
    by (induction f) auto
  show ?thesis unfolding bytes_Cut_def Let_def tw by simp
qed

lemma ReadField_of_line:
  assumes st: "(if \<not> checkedBOM d then checkBOM d else d) = d0"
    and rl: "ReadField_line d0 [] = (Inr buf, d')"
  shows "ReadField d =
     (if length buf = 0 then (([], [], None), d')
      else (case bytes_Cut buf (CHR '':'') of
              (f, v, _) \<Rightarrow>
                if \<not> utf8_Valid f \<or>
                   \<not> utf8_Valid (if length v > 0 \<and> hd v = CHR '' '' then tl v else v)
                then (([], [], Some ErrInvalidEncoding), d')
                else ((f, if length v > 0 \<and> hd v = CHR '' '' then tl v else v, None), d')))"
  unfolding ReadField_def Let_def st rl by simp

lemma ReadField_field_line:
  assumes f: "f \<noteq> []" "CHR '':'' \<notin> set f" "single_line f" "utf8_Valid f"
    and v: "single_line v" "utf8_Valid v"
    and b: "b \<or> hd f \<noteq> CHR 0xEF"
  shows "ReadField (dec_at (field_line f v @ rest) fe b) = ((f, v, None), dec_at rest fe True)"
proof (cases "v = []")
  case True
  have st: "(if \<not> checkedBOM (dec_at (f @ LF # rest) fe b)
             then checkBOM (dec_at (f @ LF # rest) fe b) else dec_at (f @ LF # rest) fe b)
            = dec_at (f @ LF # rest) fe True"
    using b f(1) by (intro ReadField_start) auto
  have "LF \<notin> set f" using f(3) by (simp add: single_line_def)
  then have rl: "ReadField_line (dec_at (f @ LF # rest) fe True) [] =
      (Inr (strip_CR f), dec_at rest fe True)"
    using ReadField_line_whole [of f rest fe True "[]"] by simp
  have sf: "strip_CR f = f" using f(1,3) by (simp add: strip_CR_def single_line_def)
  have fl: "field_line f v @ rest = f @ LF # rest"
    using True by (simp add: field_line_def)
  from True f show ?thesis
    unfolding fl ReadField_of_line [OF st rl] sf
    by (simp add: bytes_Cut_missing utf8_Valid_def)
next
  case False
  let ?l = "f @ '': '' @ v"
  have st: "(if \<not> checkedBOM (dec_at (?l @ LF # rest) fe b)
             then checkBOM (dec_at (?l @ LF # rest) fe b) else dec_at (?l @ LF # rest) fe b)
            = dec_at (?l @ LF # rest) fe True"
    using b f(1) by (intro ReadField_start) auto
  have "LF \<notin> set ?l" using f(3) v(1) by (simp add: single_line_def)
  then have rl: "ReadField_line (dec_at (?l @ LF # rest) fe True) [] =
      (Inr (strip_CR ?l), dec_at rest fe True)"
    using ReadField_line_whole [of ?l rest fe True "[]"] by simp
  have sl: "strip_CR ?l = ?l" using False v(1) by (simp add: strip_CR_def single_line_def)
  have cut: "bytes_Cut (f @ CHR '':'' # CHR '' '' # v) (CHR '':'') = (f, CHR '' '' # v, True)"
    by (rule bytes_Cut_found [OF f(2)])
  have fl: "field_line f v @ rest = ?l @ LF # rest"
    using False by (simp add: field_line_def)
  from False f v show ?thesis
    unfolding fl ReadField_of_line [OF st rl] sl
    by (simp add: cut)
qed

lemma ReadField_blank:
  "ReadField (dec_at (LF # rest) fe True) = (([], [], None), dec_at rest fe True)"
proof -
  have rl: "ReadField_line (dec_at (LF # rest) fe True) [] = (Inr (strip_CR []), dec_at rest fe True)"
    using ReadField_line_whole [of "[]" rest fe True "[]"] by simp
  have st: "(if \<not> checkedBOM (dec_at (LF # rest) fe True)
             then checkBOM (dec_at (LF # rest) fe True) else dec_at (LF # rest) fe True)
            = dec_at (LF # rest) fe True"
    by (intro ReadField_start) simp
  show ?thesis
    unfolding ReadField_of_line [OF st rl]
    by (simp add: strip_CR_def)
qed

lemma utf8_step_ascii:
  "b < 0x80 \<Longrightarrow> utf8_step st b = (if st = U_start then Some U_start else None)"
  by (cases st) (simp_all add: in_range_def)

lemma utf8_from_ascii_split:
  "(of_char c :: nat) < 0x80 \<Longrightarrow>
   utf8_from st (a @ c # b) = (utf8_from st a \<and> utf8_from U_start b)"
proof (induction a arbitrary: st)
  case Nil
  then show ?case by (auto simp: utf8_step_ascii)
next
  case (Cons x a)
  then show ?case by (simp split: option.splits)
qed

lemma utf8_Valid_line_split:
  "utf8_Valid (a @ LF # b) = (utf8_Valid a \<and> utf8_Valid b)"
  by (simp add: utf8_Valid_def utf8_from_ascii_split)

lemma bytes_Split_not_Nil: "bytes_Split s \<noteq> []"
  by (induction s) (auto split: list.splits)

lemma bytes_Split_line: "LF \<notin> set a \<Longrightarrow> bytes_Split a = [a]"
  by (induction a) auto

lemma bytes_Split_append:
  "LF \<notin> set a \<Longrightarrow> bytes_Split (a @ LF # b) = a # bytes_Split b"
  by (induction a) auto

lemma line_decomposition:
  "LF \<notin> set s \<or> (\<exists>a b. s = a @ LF # b \<and> LF \<notin> set a)"
proof (cases "LF \<in> set s")
  case True
  then obtain a b where "s = a @ LF # b" "LF \<notin> set a"
    by (auto dest: split_list_first)
  then show ?thesis by blast
next
  case False
  then show ?thesis by simp
qed

lemma bytes_Split_lines:
  "utf8_Valid s \<Longrightarrow> l \<in> set (bytes_Split s) \<Longrightarrow> LF \<notin> set l \<and> utf8_Valid l"
proof (induction "length s" arbitrary: s rule: less_induct)
  case less
  from line_decomposition [of s] show ?case
  proof
    assume "LF \<notin> set s"
    with less.prems show ?thesis by (simp add: bytes_Split_line)
  next
    assume "\<exists>a b. s = a @ LF # b \<and> LF \<notin> set a"
    then obtain a b where s: "s = a @ LF # b" and a: "LF \<notin> set a" by blast
    from less.prems(1) have va: "utf8_Valid a" and vb: "utf8_Valid b"
      unfolding s by (simp_all add: utf8_Valid_line_split)
    from less.prems(2) have "l = a \<or> l \<in> set (bytes_Split b)"
      unfolding s by (simp add: bytes_Split_append [OF a])
    then show ?thesis
    proof
      assume "l = a"
      with a va show ?thesis by simp
    next
      assume "l \<in> set (bytes_Split b)"
      moreover have "length b < length s" unfolding s by simp
      ultimately show ?thesis using vb by (intro less.hyps)
    qed
  qed
qed

lemma join_lines_Cons: "ls \<noteq> [] \<Longrightarrow> join_lines (l # ls) = l @ LF # join_lines ls"
  by (cases ls) simp_all

lemma join_lines_bytes_Split: "join_lines (bytes_Split s) = s"
proof (induction "length s" arbitrary: s rule: less_induct)
  case less
  from line_decomposition [of s] show ?case
  proof
    assume "LF \<notin> set s"
    then show ?thesis by (simp add: bytes_Split_line)
  next
    assume "\<exists>a b. s = a @ LF # b \<and> LF \<notin> set a"
    then obtain a b where s: "s = a @ LF # b" and a: "LF \<notin> set a" by blast
    have "length b < length s" unfolding s by simp
    then have "join_lines (bytes_Split b) = b" by (rule less.hyps)
    then show ?thesis
      unfolding s by (simp add: bytes_Split_append [OF a] join_lines_Cons bytes_Split_not_Nil)
  qed
qed

lemma writeField_ok:
  "writeField (enc_at out) f v = (None, enc_at (out @ field_line f v))"
  by (simp add: writeField_def Write_def enc_at_def field_line_def)

lemma WriteField_lines_ok:
  "WriteField_lines (enc_at out) f ls =
     (None, enc_at (out @ concat (map (\<lambda>l. field_line f (strip_CR l)) ls)))"
proof (induction ls arbitrary: out)
  case Nil
  show ?case by simp
next
  case (Cons l ls)
  have "(if length l > 0 \<and> last l = CR then butlast l else l) = strip_CR l"
    by (simp add: strip_CR_def)
  then show ?case
    by (simp add: Let_def writeField_ok Cons.IH del: length_greater_0_conv)
qed

lemma WriteField_ok:
  "utf8_Valid f \<Longrightarrow> utf8_Valid v \<Longrightarrow>
   WriteField (enc_at out) f v = (None, enc_at (out @ field_lines f v))"
  by (simp add: WriteField_def WriteField_lines_ok field_lines_def)

lemma utf8_Valid_names:
  "utf8_Valid ''id''" "utf8_Valid ''retry''" "utf8_Valid ''event''" "utf8_Valid ''data''"
  by (simp_all add: utf8_Valid_def)

lemma Encode_ok:
  assumes "utf8_Valid (Type E)" "utf8_Valid (ID E)" "utf8_Valid (Retry E)" "utf8_Valid (Data E)"
  shows "Encode (enc_at out) E = (None, enc_at (out @ wire E))"
proof -
  have fl: "Flush (enc_at x) = (None, enc_at (x @ [LF]))" for x
    by (simp add: Flush_def Write_def enc_at_def)
  show ?thesis
    unfolding Encode_def wire_def
    by (simp add: WriteField_ok assms utf8_Valid_names fl del: length_greater_0_conv)
qed

lemma field_lines_single: "single_line v \<Longrightarrow> field_lines f v = field_line f v"
  by (auto simp: field_lines_def single_line_def bytes_Split_line strip_CR_def)

lemma known_field_simps:
  assumes "known_field f"
  shows "f \<noteq> []" "CHR '':'' \<notin> set f" "single_line f" "utf8_Valid f" "hd f \<noteq> CHR 0xEF"
  using assms by (auto simp: known_field_def single_line_def utf8_Valid_def)

lemma Decode_loop_one_field:
  assumes "known_field f" "single_line v" "utf8_Valid v"
  shows "Decode_loop (dec_at (field_line f v @ rest) fe b) ew =
         Decode_loop (dec_at rest fe True) (Decode_switch f v ew)"
proof -
  have "ReadField (dec_at (field_line f v @ rest) fe b) = ((f, v, None), dec_at rest fe True)"
    using assms known_field_simps [OF assms(1)] by (intro ReadField_field_line) simp_all
  then show ?thesis
    using known_field_simps(1) [OF assms(1)] by (intro Decode_loop_field) simp_all
qed

lemma Decode_loop_optional_field:
  assumes "known_field f" "single_line v" "utf8_Valid v"
  shows "Decode_loop (dec_at ((if c then field_lines f v else []) @ rest) fe b) ew =
         Decode_loop (dec_at rest fe (b \<or> c)) (if c then Decode_switch f v ew else ew)"
  using assms by (simp add: field_lines_single Decode_loop_one_field)

lemma Decode_loop_data_lines:
  assumes "\<forall>l \<in> set ls. single_line l \<and> utf8_Valid l"
  shows "Decode_loop (dec_at (concat (map (field_line ''data'') ls) @ rest) fe b) (e, wd) =
         Decode_loop (dec_at rest fe (b \<or> ls \<noteq> []))
           (e\<lparr>Data := Data e @ (if wd \<and> ls \<noteq> [] then [LF] else []) @ join_lines ls\<rparr>,
            wd \<or> ls \<noteq> [])"
  using assms
proof (induction ls arbitrary: e wd b)
  case Nil
  show ?case by simp
next
  case (Cons l ls)
  have kf: "known_field ''data''" by (simp add: known_field_def)
  from Cons.prems have l: "single_line l" "utf8_Valid l"
    and ls: "\<forall>l \<in> set ls. single_line l \<and> utf8_Valid l" by simp_all
  have "Decode_loop (dec_at (concat (map (field_line ''data'') (l # ls)) @ rest) fe b) (e, wd) =
        Decode_loop (dec_at (concat (map (field_line ''data'') ls) @ rest) fe True)
          (e\<lparr>Data := Data e @ (if wd then [LF] else []) @ l\<rparr>, True)"
    using Decode_loop_one_field [OF kf l, of "concat (map (field_line ''data'') ls) @ rest" fe b "(e, wd)"]
    by (simp add: Decode_switch_data)
  also have "\<dots> = Decode_loop (dec_at rest fe True)
      (e\<lparr>Data := (Data e @ (if wd then [LF] else []) @ l) @
                  (if ls \<noteq> [] then [LF] else []) @ join_lines ls\<rparr>, True)"
    using Cons.IH [OF ls, of True "e\<lparr>Data := Data e @ (if wd then [LF] else []) @ l\<rparr>" True]
    by simp
  also have "(Data e @ (if wd then [LF] else []) @ l) @ (if ls \<noteq> [] then [LF] else []) @ join_lines ls
      = Data e @ (if wd then [LF] else []) @ join_lines (l # ls)"
    by (cases ls) simp_all
  finally show ?case by simp
qed

lemma field_lines_data:
  assumes "\<forall>l \<in> set (bytes_Split v). l = [] \<or> last l \<noteq> CR"
  shows "field_lines ''data'' v = concat (map (field_line ''data'') (bytes_Split v))"
proof -
  have eq: "map (\<lambda>l. field_line ''data'' (strip_CR l)) (bytes_Split v) =
        map (field_line ''data'') (bytes_Split v)"
    using assms by (intro map_cong) (auto simp: strip_CR_def)
  show ?thesis unfolding field_lines_def eq ..
qed

lemma Decode_wire:
  assumes valid: "utf8_Valid (Type E)" "utf8_Valid (ID E)" "utf8_Valid (Retry E)"
      "utf8_Valid (Data E)"
    and single: "single_line (ID E)" "single_line (Retry E)" "single_line (Type E)"
    and type: "length (Type E) > 0"
    and data: "\<forall>l \<in> set (bytes_Split (Data E)). l = [] \<or> last l \<noteq> CR"
    and reset: "\<not> (ResetID E \<and> length (ID E) > 0)"
  shows "Decode (dec_at (wire E) fe False) zero_Event = (None, dec_at [] fe True, E)"
proof -
  let ?ls = "bytes_Split (Data E)"
  let ?c1 = "ResetID E \<or> length (ID E) > 0"
  let ?c2 = "length (Retry E) > 0"
  let ?e0 = "zero_Event\<lparr>Type := ''message''\<rparr>"
  let ?ew1 = "if ?c1 then Decode_switch ''id'' (ID E) (?e0, False) else (?e0, False)"
  let ?ew2 = "if ?c2 then Decode_switch ''retry'' (Retry E) ?ew1 else ?ew1"
  let ?ew3 = "Decode_switch ''event'' (Type E) ?ew2"
  let ?r3 = "field_lines ''data'' (Data E) @ [LF]"
  let ?r2 = "field_lines ''event'' (Type E) @ ?r3"
  let ?r1 = "(if ?c2 then field_lines ''retry'' (Retry E) else []) @ ?r2"
  have kf: "known_field ''id''" "known_field ''retry''" "known_field ''event''"
    by (simp_all add: known_field_def)
  have lines: "\<forall>l \<in> set ?ls. single_line l \<and> utf8_Valid l"
    using bytes_Split_lines [OF valid(4)] data by (auto simp: single_line_def)
  have w: "wire E = (if ?c1 then field_lines ''id'' (ID E) else []) @ ?r1"
    using type by (simp add: wire_def)
  have "Decode (dec_at (wire E) fe False) zero_Event =
        Decode_loop (dec_at ((if ?c1 then field_lines ''id'' (ID E) else []) @ ?r1) fe False)
          (?e0, False)"
    unfolding Decode_def w ..
  also have "\<dots> = Decode_loop (dec_at ?r1 fe (False \<or> ?c1)) ?ew1"
    by (rule Decode_loop_optional_field [OF kf(1) single(1) valid(2)])
  also have "\<dots> = Decode_loop (dec_at ?r2 fe ((False \<or> ?c1) \<or> ?c2)) ?ew2"
    by (rule Decode_loop_optional_field [OF kf(2) single(2) valid(3)])
  also have "\<dots> = Decode_loop (dec_at ?r3 fe True) ?ew3"
    unfolding field_lines_single [OF single(3)]
    by (rule Decode_loop_one_field [OF kf(3) single(3) valid(1)])
  finally have step3: "Decode (dec_at (wire E) fe False) zero_Event =
      Decode_loop (dec_at ?r3 fe True) ?ew3" .
  have ew3: "?ew3 = (E\<lparr>Data := []\<rparr>, False)"
    using reset by (cases E) (auto simp: Decode_switch_def zero_Event_def)
  have ne: "?ls \<noteq> []" by (rule bytes_Split_not_Nil)
  have "Decode_loop (dec_at ?r3 fe True) (E\<lparr>Data := []\<rparr>, False) =
        Decode_loop (dec_at (concat (map (field_line ''data'') ?ls) @ [LF]) fe True)
          (E\<lparr>Data := []\<rparr>, False)"
    by (simp add: field_lines_data [OF data])
  also have "\<dots> = Decode_loop (dec_at [LF] fe (True \<or> ?ls \<noteq> []))
      ((E\<lparr>Data := []\<rparr>)\<lparr>Data := Data (E\<lparr>Data := []\<rparr>) @
          (if False \<and> ?ls \<noteq> [] then [LF] else []) @ join_lines ?ls\<rparr>, False \<or> ?ls \<noteq> [])"
    by (rule Decode_loop_data_lines [OF lines])
  also have "\<dots> = Decode_loop (dec_at [LF] fe True) (E, True)"
    using ne by (simp add: join_lines_bytes_Split)
  also have "\<dots> = (None, dec_at [] fe True, E)"
    using Decode_loop_boundary [OF ReadField_blank, of "[]" fe "(E, True)"] by simp
  finally show ?thesis
    unfolding step3 ew3 .
qed

text \<open>
  The event with data \<open>hello\<close> and an empty type (the one of the handler's test) is
  encoded without an \<open>event\<close> field and decoded with the type \<open>message\<close>: it does not
  come back as it was. Further, data that is not UTF-8 is refused by \<open>Encode\<close>; an ID
  with a newline is written as two \<open>id\<close> fields, of which the last one wins; and a
  \<open>\r\<close> at the end of the data is dropped.
\<close>

theorem encode_decode_identity_counterexample:
  "0 < length (Data (zero_Event\<lparr>Data := ''hello''\<rparr>)) \<and>
   \<not> (ResetID (zero_Event\<lparr>Data := ''hello''\<rparr>) \<and> 0 < length (ID (zero_Event\<lparr>Data := ''hello''\<rparr>))) \<and>
   Encode (NewEncoder working_sink) (zero_Event\<lparr>Data := ''hello''\<rparr>) =
     (None, \<lparr>enc_w = \<lparr>written = ''data: hello'' @ [LF, LF], broken = None\<rparr>\<rparr>) \<and>
   Decode (NewDecoder (stream_of (''data: hello'' @ [LF, LF]))) zero_Event =
     (None, \<lparr>dec_r = stream_of [], checkedBOM = True\<rparr>,
      \<lparr>Type = ''message'', ID = [], Retry = [], Data = ''hello'', ResetID = False\<rparr>) \<and>
   \<lparr>Type = ''message'', ID = [], Retry = [], Data = ''hello'', ResetID = False\<rparr> \<noteq>
     zero_Event\<lparr>Data := ''hello''\<rparr> \<and>
   fst (Encode (NewEncoder working_sink)
          \<lparr>Type = ''t'', ID = [], Retry = [], Data = [CHR 0xFF], ResetID = False\<rparr>) =
     Some ErrInvalidEncoding \<and>
   Encode (NewEncoder working_sink)
      \<lparr>Type = ''t'', ID = ''a'' @ [LF] @ ''b'', Retry = [], Data = ''x'' @ [CR], ResetID = False\<rparr> =
     (None, \<lparr>enc_w = \<lparr>written = ''id: a'' @ [LF] @ ''id: b'' @ [LF] @ ''event: t'' @ [LF] @
                                   ''data: x'' @ [LF, LF], broken = None\<rparr>\<rparr>) \<and>
   Decode (NewDecoder (stream_of (''id: a'' @ [LF] @ ''id: b'' @ [LF] @ ''event: t'' @ [LF] @
                                   ''data: x'' @ [LF, LF]))) zero_Event =
     (None, \<lparr>dec_r = stream_of [], checkedBOM = True\<rparr>,
      \<lparr>Type = ''t'', ID = ''b'', Retry = [], Data = ''x'', ResetID = False\<rparr>)"
  by (simp add: encoder_eval codec_eval working_sink_def)

text \<open>
  C1, amended. Let the sink work, and let the event have: a type, an ID, a retry value
  and data that are all valid UTF-8; a type that is not empty; a type, an ID and a retry
  value without newline and without \<open>\r\<close> at the end; data of length above zero none
  of whose lines ends in \<open>\r\<close>; and not both \<open>ResetID\<close> and an ID. Then \<open>Encode\<close>
  succeeds, and \<open>Decode\<close> on a new decoder over the bytes that \<open>Encode\<close> wrote, into the
  zero event, succeeds, reads all of them and yields the event itself.
\<close>

theorem encode_decode_identity:
  assumes "broken w = None"
    and "utf8_Valid (Type E)" "utf8_Valid (ID E)" "utf8_Valid (Retry E)" "utf8_Valid (Data E)"
    and "single_line (ID E)" "single_line (Retry E)" "single_line (Type E)"
    and "length (Type E) > 0" and "length (Data E) > 0"
    and "\<forall>l \<in> set (bytes_Split (Data E)). l = [] \<or> last l \<noteq> CR"
    and "\<not> (ResetID E \<and> length (ID E) > 0)"
  shows "fst (Encode (NewEncoder w) E) = None \<and>
         Decode (NewDecoder
                   \<lparr>content = drop (length (written w))
                                (written (enc_w (snd (Encode (NewEncoder w) E)))),
                    fin = fe\<rparr>) zero_Event =
           (None, \<lparr>dec_r = \<lparr>content = [], fin = fe\<rparr>, checkedBOM = True\<rparr>, E)"
proof -
  have ne: "NewEncoder w = enc_at (written w)"
    using assms(1) by (cases w) (simp add: NewEncoder_def enc_at_def)
  have enc: "Encode (NewEncoder w) E = (None, enc_at (written w @ wire E))"
    unfolding ne using assms(2-5) by (rule Encode_ok)
  have dec: "Decode (dec_at (wire E) fe False) zero_Event = (None, dec_at [] fe True, E)"
    using assms(2-9,11,12) by (rule Decode_wire)
  from enc dec show ?thesis
    by (simp add: enc_at_def dec_at_def NewDecoder_def)
qed

theorem encode_decode_identity_witness:
  "broken working_sink = None \<and>
   utf8_Valid ''custom'' \<and> utf8_Valid ''1'' \<and> utf8_Valid ''1000'' \<and> utf8_Valid (''a'' @ [LF] @ ''b'') \<and>
   single_line ''1'' \<and> single_line ''1000'' \<and> single_line ''custom'' \<and>
   bytes_Split (''a'' @ [LF] @ ''b'') = [''a'', ''b''] \<and>
   Encode (NewEncoder working_sink)
      \<lparr>Type = ''custom'', ID = ''1'', Retry = ''1000'', Data = ''a'' @ [LF] @ ''b'', ResetID = False\<rparr> =
     (None, \<lparr>enc_w = \<lparr>written = ''id: 1'' @ [LF] @ ''retry: 1000'' @ [LF] @ ''event: custom'' @ [LF]
                                   @ ''data: a'' @ [LF] @ ''data: b'' @ [LF, LF],
                        broken = None\<rparr>\<rparr>) \<and>
   Decode (NewDecoder (stream_of (''id: 1'' @ [LF] @ ''retry: 1000'' @ [LF] @ ''event: custom'' @ [LF]
                                   @ ''data: a'' @ [LF] @ ''data: b'' @ [LF, LF]))) zero_Event =
     (None, \<lparr>dec_r = stream_of [], checkedBOM = True\<rparr>,
      \<lparr>Type = ''custom'', ID = ''1'', Retry = ''1000'', Data = ''a'' @ [LF] @ ''b'', ResetID = False\<rparr>)"
proof -
  let ?E = "\<lparr>Type = ''custom'', ID = ''1'', Retry = ''1000'', Data = ''a'' @ [LF] @ ''b'',
             ResetID = False\<rparr>"
  have h: "broken working_sink = None"
    "utf8_Valid (Type ?E)" "utf8_Valid (ID ?E)" "utf8_Valid (Retry ?E)" "utf8_Valid (Data ?E)"
    "single_line (ID ?E)" "single_line (Retry ?E)" "single_line (Type ?E)"
    "length (Type ?E) > 0" "length (Data ?E) > 0"
    "\<forall>l \<in> set (bytes_Split (Data ?E)). l = [] \<or> last l \<noteq> CR"
    "\<not> (ResetID ?E \<and> length (ID ?E) > 0)"
    by (simp_all add: working_sink_def utf8_Valid_def single_line_def)
  have e: "Encode (NewEncoder working_sink) ?E =
     (None, \<lparr>enc_w = \<lparr>written = ''id: 1'' @ [LF] @ ''retry: 1000'' @ [LF] @ ''event: custom'' @ [LF]
                                   @ ''data: a'' @ [LF] @ ''data: b'' @ [LF, LF],
                        broken = None\<rparr>\<rparr>)"
    by (simp add: encoder_eval working_sink_def utf8_Valid_def)
  from encode_decode_identity [OF h, of EOF] h e show ?thesis
    by (simp add: working_sink_def stream_of_def)
qed

end
